theory Spec2Isabelle
  imports Complex_Main "HOL-Library.AList"
begin

section \<open>The ping-pong benchmark of \<^verbatim>\<open>3_pingpong.py\<close>\<close>

text \<open>
  The development follows the source file top down: the parsing of the
  \<^verbatim>\<open>--pairs\<close> argument, the benchmark runner \<^verbatim>\<open>main\<close>, and the two measured
  functions \<^verbatim>\<open>pingpong_asyncio\<close> and \<^verbatim>\<open>pingpong_threads\<close>. Python integers are
  \<^typ>\<open>int\<close>, strings are ASCII \<^typ>\<open>string\<close>s, an exception is a value of
  \<open>py_error\<close> on the left of a sum. The arithmetic of \<^verbatim>\<open>main\<close> on Python floats is
  that of IEEE 754 binary64 with rounding to nearest, ties to even. Inside the two
  measured functions a reading of the clock is a \<^typ>\<open>real\<close> number, and the elapsed
  time they return is the difference of two readings.
\<close>

subsection \<open>Strings: \<^verbatim>\<open>str.split\<close>, \<^verbatim>\<open>str.strip\<close>, \<^verbatim>\<open>int\<close>\<close>

datatype py_error =
    ValueError string
  | RuntimeError string
  | KeyError int
  | OverflowError string
  | ZeroDivisionError string

text \<open>\<^verbatim>\<open>s.split(sep)\<close> for a one-character separator: never an empty result.\<close>

fun split_on :: "char \<Rightarrow> string \<Rightarrow> string list" where
  "split_on sep [] = [[]]"
| "split_on sep (c # cs) =
     (if c = sep then [] # split_on sep cs
      else (case split_on sep cs of
              [] \<Rightarrow> [[c]]
            | w # ws \<Rightarrow> (c # w) # ws))"

text \<open>The ASCII characters for which \<^verbatim>\<open>str.isspace\<close> holds.\<close>

definition is_space :: "char \<Rightarrow> bool" where
  "is_space c \<longleftrightarrow>
     (let n = (of_char c :: nat) in (9 \<le> n \<and> n \<le> 13) \<or> (28 \<le> n \<and> n \<le> 32))"

definition strip :: "string \<Rightarrow> string" where
  "strip s = rev (dropWhile is_space (rev (dropWhile is_space s)))"

definition is_digit :: "char \<Rightarrow> bool" where
  "is_digit c \<longleftrightarrow> (let n = (of_char c :: nat) in 48 \<le> n \<and> n \<le> 57)"

definition digit_val :: "char \<Rightarrow> int" where
  "digit_val c = int (of_char c) - 48"

text \<open>
  The digits of a decimal literal after the first one; a single underscore may
  stand between two digits.
\<close>

fun digits_val :: "int \<Rightarrow> string \<Rightarrow> int option" where
  "digits_val acc [] = Some acc"
| "digits_val acc [c] = (if is_digit c then Some (10 * acc + digit_val c) else None)"
| "digits_val acc (c # d # ds) =
     (if is_digit c then digits_val (10 * acc + digit_val c) (d # ds)
      else if c = CHR ''_'' \<and> is_digit d then digits_val (10 * acc + digit_val d) ds
      else None)"

definition unsigned_literal :: "string \<Rightarrow> int option" where
  "unsigned_literal s =
     (case s of
        [] \<Rightarrow> None
      | c # cs \<Rightarrow> if is_digit c then digits_val (digit_val c) cs else None)"

text \<open>
  \<^verbatim>\<open>int(part)\<close> on an already stripped string: an optional sign and a decimal
  literal; \<open>None\<close> stands for the \<^verbatim>\<open>ValueError\<close> of an invalid literal.
  (CPython's configurable limit on the number of digits is not part of the model.)
\<close>

definition py_int :: "string \<Rightarrow> int option" where
  "py_int s =
     (case s of
        [] \<Rightarrow> None
      | c # cs \<Rightarrow>
          if c = CHR ''-'' then map_option uminus (unsigned_literal cs)
          else if c = CHR ''+'' then unsigned_literal cs
          else unsigned_literal s)"

subsection \<open>\<^verbatim>\<open>parse_pairs\<close>\<close>

text \<open>The loop over \<^verbatim>\<open>s.split(",")\<close>, with \<open>vals\<close> the list built so far.\<close>

fun parse_loop :: "string list \<Rightarrow> int list \<Rightarrow> py_error + int list" where
  "parse_loop [] vals = Inr vals"
| "parse_loop (part # rest) vals =
     (let part' = strip part in
      if part' = [] then parse_loop rest vals
      else (case py_int part' of
              None \<Rightarrow> Inl (ValueError ''invalid literal for int() with base 10'')
            | Some v \<Rightarrow>
                if v \<le> 0 then Inl (ValueError ''pairs must be > 0'')
                else parse_loop rest (vals @ [v])))"

definition parse_pairs :: "string \<Rightarrow> py_error + int list" where
  "parse_pairs s =
     (case parse_loop (split_on CHR '','' s) [] of
        Inl e \<Rightarrow> Inl e
      | Inr vals \<Rightarrow> if vals = [] then Inl (ValueError ''empty pairs list'') else Inr vals)"

text \<open>The parts of the argument that are not blank, stripped, in input order.\<close>

definition listed :: "string \<Rightarrow> string list" where
  "listed s = filter (\<lambda>w. w \<noteq> []) (map strip (split_on CHR '','' s))"

subsection \<open>Python floats\<close>

text \<open>
  A Python float is a binary64 number: a real number with a 53 bit significand and
  an exponent from \<open>-1022\<close> to \<open>1023\<close>, an infinity, or NaN. The two zeros are not
  told apart (they compare equal, and \<^verbatim>\<open>int\<close> gives 0 for both).
\<close>

datatype pyfloat = Fin real | PInf | MInf | NaN

text \<open>The nearest integer, a tie going to the even one.\<close>

definition round_even :: "real \<Rightarrow> int" where
  "round_even q =
     (let f = \<lfloor>q\<rfloor>; r = q - of_int f in
      if r < 1 / 2 then f else if 1 / 2 < r then f + 1 else if even f then f else f + 1)"

text \<open>
  The distance between neighbouring floats at \<open>x\<close>: \<open>2\<close> to the power \<open>e - 52\<close> for
  \<open>2 ^ e \<le> \<bar>x\<bar> < 2 ^ (e + 1)\<close>, and \<open>2 ^ (- 1074)\<close> below the normal range.
\<close>

definition ulp :: "real \<Rightarrow> real" where
  "ulp x = 2 powr (of_int (max \<lfloor>log 2 \<bar>x\<bar>\<rfloor> (- 1022)) - 52)"

text \<open>Rounding to nearest, ties to even, with an unbounded exponent.\<close>

definition rounded :: "real \<Rightarrow> real" where
  "rounded x = (if x = 0 then 0 else of_int (round_even (x / ulp x)) * ulp x)"

text \<open>The float for a real result: it overflows to an infinity from \<open>2 ^ 1024\<close> on.\<close>

definition round64 :: "real \<Rightarrow> pyfloat" where
  "round64 x =
     (let y = rounded x in
      if 2 ^ 1024 \<le> y then PInf else if y \<le> - (2 ^ 1024) then MInf else Fin y)"

text \<open>
  The conversion of an \<^verbatim>\<open>int\<close> operand of \<^verbatim>\<open>/\<close> to a float
  (\<^verbatim>\<open>PyLong_AsDouble\<close>): correctly rounded, \<^verbatim>\<open>OverflowError\<close> beyond the range.
\<close>

definition to_float :: "int \<Rightarrow> py_error + pyfloat" where
  "to_float n =
     (case round64 (real_of_int n) of
        Fin a \<Rightarrow> Inr (Fin a)
      | _ \<Rightarrow> Inl (OverflowError ''int too large to convert to float''))"

text \<open>
  \<^verbatim>\<open>a / b\<close> on two floats: \<^verbatim>\<open>ZeroDivisionError\<close> for a zero divisor, otherwise the
  IEEE quotient, which overflows to an infinity without an exception.
\<close>

fun float_div :: "pyfloat \<Rightarrow> pyfloat \<Rightarrow> py_error + pyfloat" where
  "float_div a (Fin b) =
     (if b = 0 then Inl (ZeroDivisionError ''float division by zero'')
      else Inr (case a of
                  Fin x \<Rightarrow> round64 (x / b)
                | PInf \<Rightarrow> if 0 < b then PInf else MInf
                | MInf \<Rightarrow> if 0 < b then MInf else PInf
                | NaN \<Rightarrow> NaN))"
| "float_div a PInf = Inr (case a of Fin x \<Rightarrow> Fin 0 | _ \<Rightarrow> NaN)"
| "float_div a MInf = Inr (case a of Fin x \<Rightarrow> Fin 0 | _ \<Rightarrow> NaN)"
| "float_div a NaN = Inr NaN"

text \<open>\<^verbatim>\<open>x > 0\<close> on a float.\<close>

fun float_pos :: "pyfloat \<Rightarrow> bool" where
  "float_pos (Fin y) \<longleftrightarrow> 0 < y"
| "float_pos PInf \<longleftrightarrow> True"
| "float_pos MInf \<longleftrightarrow> False"
| "float_pos NaN \<longleftrightarrow> False"

text \<open>\<^verbatim>\<open>int(x)\<close> on a finite float truncates towards zero.\<close>

definition py_trunc :: "real \<Rightarrow> int" where
  "py_trunc x = (if 0 \<le> x then \<lfloor>x\<rfloor> else \<lceil>x\<rceil>)"

fun float_to_int :: "pyfloat \<Rightarrow> py_error + int" where
  "float_to_int (Fin y) = Inr (py_trunc y)"
| "float_to_int NaN = Inl (ValueError ''cannot convert float NaN to integer'')"
| "float_to_int PInf = Inl (OverflowError ''cannot convert float infinity to integer'')"
| "float_to_int MInf = Inl (OverflowError ''cannot convert float infinity to integer'')"

subsection \<open>The benchmark runner \<^verbatim>\<open>main\<close>\<close>

text \<open>
  What \<^verbatim>\<open>main\<close> does to the outside world is kept as a list of events: a call
  of one of the two measured functions, a printed result line, the plot. The
  measured functions are the environment of \<^verbatim>\<open>main\<close>: \<open>run_async env k iters p\<close>
  is what the call \<^verbatim>\<open>asyncio.run(pingpong_asyncio(iters, p))\<close> of loop round
  \<open>k\<close> gives, an elapsed time (a finite float) or the exception it raises.
\<close>

datatype variant = Asyncio | Threads

datatype event =
    Call variant int int
  | Line variant int real int
  | Plot "int list" "pyfloat list"
  | Wrote

record env =
  run_async :: "nat \<Rightarrow> int \<Rightarrow> int \<Rightarrow> py_error + real"
  run_thr :: "nat \<Rightarrow> int \<Rightarrow> int \<Rightarrow> py_error + real"
  have_plt :: bool

record bench =
  out :: "event list"
  rps_async :: "(int \<times> pyfloat) list"
  rps_thr :: "(int \<times> pyfloat) list"

text \<open>
  \<^verbatim>\<open>(args.iters * p) / dt if dt > 0 else 0.0\<close>: the product is an exact \<^verbatim>\<open>int\<close>,
  which the division converts to a float first.
\<close>

definition rps :: "int \<Rightarrow> int \<Rightarrow> real \<Rightarrow> py_error + pyfloat" where
  "rps iters p dt =
     (if dt > 0 then
        (case to_float (iters * p) of
           Inl e \<Rightarrow> Inl e
         | Inr a \<Rightarrow> float_div a (Fin dt))
      else Inr (Fin 0))"

text \<open>
  The loop of \<^verbatim>\<open>main\<close>, round \<open>k\<close> first. The throughput is stored before the
  line is printed, and the f-string evaluates \<^verbatim>\<open>int(rps)\<close>, which raises for a
  throughput that is not finite.
\<close>

fun main_loop :: "env \<Rightarrow> int \<Rightarrow> nat \<Rightarrow> int list \<Rightarrow> bench \<Rightarrow> bench \<times> py_error option" where
  "main_loop env iters k [] b = (b, None)"
| "main_loop env iters k (p # ps) b =
     (let b1 = b\<lparr>out := out b @ [Call Asyncio iters p]\<rparr> in
      case run_async env k iters p of
        Inl e \<Rightarrow> (b1, Some e)
      | Inr dt_a \<Rightarrow>
     (case rps iters p dt_a of
        Inl e \<Rightarrow> (b1, Some e)
      | Inr rps_a \<Rightarrow>
     (let b2 = b1\<lparr>rps_async := AList.update p rps_a (rps_async b1)\<rparr> in
      case float_to_int rps_a of
        Inl e \<Rightarrow> (b2, Some e)
      | Inr shown_a \<Rightarrow>
     (let b3 = b2\<lparr>out := out b2 @ [Line Asyncio p dt_a shown_a, Call Threads iters p]\<rparr> in
      case run_thr env k iters p of
        Inl e \<Rightarrow> (b3, Some e)
      | Inr dt_t \<Rightarrow>
     (case rps iters p dt_t of
        Inl e \<Rightarrow> (b3, Some e)
      | Inr rps_t \<Rightarrow>
     (let b4 = b3\<lparr>rps_thr := AList.update p rps_t (rps_thr b3)\<rparr> in
      case float_to_int rps_t of
        Inl e \<Rightarrow> (b4, Some e)
      | Inr shown_t \<Rightarrow>
          main_loop env iters (Suc k) ps (b4\<lparr>out := out b4 @ [Line Threads p dt_t shown_t]\<rparr>)))))))"

text \<open>\<^verbatim>\<open>sorted(set(rps_async.keys()) & set(rps_thr.keys()))\<close>\<close>

definition common_keys :: "(int \<times> pyfloat) list \<Rightarrow> (int \<times> pyfloat) list \<Rightarrow> int list" where
  "common_keys a t = sort (remdups (filter (\<lambda>x. x \<in> set (map fst t)) (map fst a)))"

text \<open>\<^verbatim>\<open>[(rps_async[x] / rps_thr[x]) if rps_thr[x] > 0 else 0.0 for x in xs]\<close>\<close>

fun ratios :: "(int \<times> pyfloat) list \<Rightarrow> (int \<times> pyfloat) list \<Rightarrow> int list \<Rightarrow> py_error + pyfloat list" where
  "ratios a t [] = Inr []"
| "ratios a t (x # xs) =
     (case map_of t x of
        None \<Rightarrow> Inl (KeyError x)
      | Some rt \<Rightarrow>
          if float_pos rt then
            (case map_of a x of
               None \<Rightarrow> Inl (KeyError x)
             | Some ra \<Rightarrow>
                 (case float_div ra rt of
                    Inl e \<Rightarrow> Inl e
                  | Inr y \<Rightarrow> (case ratios a t xs of Inl e \<Rightarrow> Inl e | Inr ys \<Rightarrow> Inr (y # ys))))
          else (case ratios a t xs of Inl e \<Rightarrow> Inl e | Inr ys \<Rightarrow> Inr (Fin 0 # ys)))"

text \<open>
  \<^verbatim>\<open>main\<close>: the events, and the exit code or the exception that ends the
  process. No exception is caught anywhere in \<^verbatim>\<open>main\<close>.
\<close>

definition main :: "env \<Rightarrow> int \<Rightarrow> string \<Rightarrow> bool \<Rightarrow> event list \<times> (py_error + int)" where
  "main env iters pairs_arg plot =
     (case parse_pairs pairs_arg of
        Inl e \<Rightarrow> ([], Inl e)
      | Inr pairs_list \<Rightarrow>
          (case main_loop env iters 0 pairs_list \<lparr>out = [], rps_async = [], rps_thr = []\<rparr> of
             (b, Some e) \<Rightarrow> (out b, Inl e)
           | (b, None) \<Rightarrow>
               (let xs = common_keys (rps_async b) (rps_thr b) in
                case ratios (rps_async b) (rps_thr b) xs of
                  Inl e \<Rightarrow> (out b, Inl e)
                | Inr ys \<Rightarrow>
                    if plot then
                      (if have_plt env then (out b @ [Plot xs ys, Wrote], Inr 0)
                       else (out b, Inl (RuntimeError ''matplotlib not installed (pip install matplotlib)'')))
                    else (out b, Inr 0))))"

text \<open>Helpers for stating what \<^verbatim>\<open>main\<close> did: the calls of the measured functions.\<close>

fun is_call :: "event \<Rightarrow> bool" where
  "is_call (Call v i p) = True"
| "is_call _ = False"

definition both_calls :: "int \<Rightarrow> int \<Rightarrow> event list" where
  "both_calls iters p = [Call Asyncio iters p, Call Threads iters p]"

text \<open>
  The runner's state after one full round of the loop for pair count \<open>p\<close>, with the
  two elapsed times, the two throughputs and the two integers shown.
\<close>

definition round_done ::
    "int \<Rightarrow> int \<Rightarrow> real \<Rightarrow> pyfloat \<Rightarrow> int \<Rightarrow> real \<Rightarrow> pyfloat \<Rightarrow> int \<Rightarrow> bench \<Rightarrow> bench" where
  "round_done iters p da ra ia dt rt it b =
     b\<lparr>rps_async := AList.update p ra (rps_async b),
       rps_thr := AList.update p rt (rps_thr b),
       out := out b @ [Call Asyncio iters p, Line Asyncio p da ia,
                       Call Threads iters p, Line Threads p dt it]\<rparr>"

section \<open>The two measured functions as interleaved processes\<close>

text \<open>
  \<^verbatim>\<open>pingpong_asyncio\<close> and \<^verbatim>\<open>pingpong_threads\<close> run the same two loops per pair,
  \<^verbatim>\<open>pinger\<close> and \<^verbatim>\<open>ponger\<close>, as tasks of one event loop or as threads. Both are
  modelled as an interleaving of atomic steps: a step is one \<^verbatim>\<open>put\<close> or \<^verbatim>\<open>get\<close>
  on a queue, one call or return of \<^verbatim>\<open>start.wait()\<close>, one \<^verbatim>\<open>th.start()\<close>, one
  \<^verbatim>\<open>th.join()\<close>, one reading of the clock. A step function gives \<open>None\<close> when the
  actor cannot move (it is blocked, not started or has finished); which actor moves
  next is the scheduler's choice, and every statement below is about all choices.
  The event loop of asyncio runs one task at a time and switches only at an
  \<^verbatim>\<open>await\<close>, so each of its runs is one of these interleavings.
\<close>

subsection \<open>\<^verbatim>\<open>Queue(maxsize=1)\<close>\<close>

text \<open>
  The content of the queue, first in first out, and two logs that the program does
  not have: every value ever put, and every value ever returned by \<^verbatim>\<open>get\<close>.
\<close>

record chan =
  q_items :: "int list"
  put_log :: "int list"
  get_log :: "int list"

definition new_queue :: chan where
  "new_queue = \<lparr>q_items = [], put_log = [], get_log = []\<rparr>"

definition maxsize :: nat where
  "maxsize = 1"

text \<open>\<^verbatim>\<open>put\<close> blocks while the queue is full, \<^verbatim>\<open>get\<close> while it is empty.\<close>

definition put :: "int \<Rightarrow> chan \<Rightarrow> chan option" where
  "put x q =
     (if maxsize \<le> length (q_items q) then None
      else Some (q\<lparr>q_items := q_items q @ [x], put_log := put_log q @ [x]\<rparr>))"

definition get :: "chan \<Rightarrow> (int \<times> chan) option" where
  "get q =
     (case q_items q of
        [] \<Rightarrow> None
      | x # xs \<Rightarrow> Some (x, q\<lparr>q_items := xs, get_log := get_log q @ [x]\<rparr>))"

subsection \<open>One pair: \<^verbatim>\<open>pinger\<close> and \<^verbatim>\<open>ponger\<close>\<close>

text \<open>
  Where a worker stands. \<open>PiPut i\<close>: about to run \<^verbatim>\<open>q1.put(i)\<close>; \<open>PiGet i\<close>: about
  to run \<^verbatim>\<open>q2.get()\<close> of round \<open>i\<close>; \<open>PoGet j\<close>: about to run \<^verbatim>\<open>q1.get()\<close> of round
  \<open>j\<close>; \<open>PoPut j v\<close>: about to run \<^verbatim>\<open>q2.put(v)\<close>. The first three positions exist for
  threads only: the thread object is created, the thread is started and about to
  call \<^verbatim>\<open>start.wait()\<close>, the thread is inside \<^verbatim>\<open>start.wait()\<close>.
\<close>

datatype pinger_pc = PiNew | PiStarted | PiWaiting | PiPut int | PiGet int | PiDone

datatype ponger_pc = PoNew | PoStarted | PoWaiting | PoGet int | PoPut int int | PoDone

record pair =
  q1 :: chan
  q2 :: chan
  pinger :: pinger_pc
  ponger :: ponger_pc

text \<open>The head of \<^verbatim>\<open>for i in range(iters)\<close>, entered with the next value \<open>i\<close>.\<close>

definition pinger_loop :: "int \<Rightarrow> int \<Rightarrow> pinger_pc" where
  "pinger_loop iters i = (if i < iters then PiPut i else PiDone)"

definition ponger_loop :: "int \<Rightarrow> int \<Rightarrow> ponger_pc" where
  "ponger_loop iters j = (if j < iters then PoGet j else PoDone)"

definition pinger_step :: "int \<Rightarrow> pair \<Rightarrow> pair option" where
  "pinger_step iters p =
     (case pinger p of
        PiPut i \<Rightarrow>
          (case put i (q1 p) of
             None \<Rightarrow> None
           | Some q \<Rightarrow> Some (p\<lparr>q1 := q, pinger := PiGet i\<rparr>))
      | PiGet i \<Rightarrow>
          (case get (q2 p) of
             None \<Rightarrow> None
           | Some (x, q) \<Rightarrow> Some (p\<lparr>q2 := q, pinger := pinger_loop iters (i + 1)\<rparr>))
      | _ \<Rightarrow> None)"

definition ponger_step :: "int \<Rightarrow> pair \<Rightarrow> pair option" where
  "ponger_step iters p =
     (case ponger p of
        PoGet j \<Rightarrow>
          (case get (q1 p) of
             None \<Rightarrow> None
           | Some (v, q) \<Rightarrow> Some (p\<lparr>q1 := q, ponger := PoPut j v\<rparr>))
      | PoPut j v \<Rightarrow>
          (case put v (q2 p) of
             None \<Rightarrow> None
           | Some q \<Rightarrow> Some (p\<lparr>q2 := q, ponger := ponger_loop iters (j + 1)\<rparr>))
      | _ \<Rightarrow> None)"

definition pair_done :: "pair \<Rightarrow> bool" where
  "pair_done p \<longleftrightarrow> pinger p = PiDone \<and> ponger p = PoDone"

text \<open>Who moves: the function's own body, or a worker of the pair with that index.\<close>

datatype actor = Driver | Pinger nat | Ponger nat

text \<open>A schedule is run from a state; \<open>None\<close> when a scheduled actor cannot move.\<close>

fun exec :: "('a \<Rightarrow> 's \<Rightarrow> 's option) \<Rightarrow> 'a list \<Rightarrow> 's \<Rightarrow> 's option" where
  "exec step [] s = Some s"
| "exec step (a # as) s = (case step a s of None \<Rightarrow> None | Some s' \<Rightarrow> exec step as s')"

subsection \<open>\<^verbatim>\<open>pingpong_asyncio\<close>\<close>

text \<open>
  The clock \<^verbatim>\<open>now()\<close> is a function of the number of steps taken so far; the
  theorems that speak of elapsed time assume it monotone, as \<^verbatim>\<open>time.perf_counter\<close>
  is documented to be.
\<close>

datatype adriver = ANow0 | AGather | AAwait | ANow1 | AReturn

record astate =
  a_pairs :: "pair list"
  a_driver :: adriver
  a_ticks :: nat
  a_t0 :: "real option"
  a_result :: "real option"

text \<open>\<^verbatim>\<open>one_pair\<close>: two fresh queues, and both loops at their heads.\<close>

definition one_pair :: "int \<Rightarrow> pair" where
  "one_pair iters =
     \<lparr>q1 = new_queue, q2 = new_queue,
      pinger = pinger_loop iters 0, ponger = ponger_loop iters 0\<rparr>"

definition pingpong_asyncio_init :: astate where
  "pingpong_asyncio_init =
     \<lparr>a_pairs = [], a_driver = ANow0, a_ticks = 0, a_t0 = None, a_result = None\<rparr>"

definition asyncio_driver :: "(nat \<Rightarrow> real) \<Rightarrow> int \<Rightarrow> int \<Rightarrow> astate \<Rightarrow> astate option" where
  "asyncio_driver now iters pairs s =
     (case a_driver s of
        ANow0 \<Rightarrow> Some (s\<lparr>a_t0 := Some (now (a_ticks s)), a_driver := AGather\<rparr>)
      | AGather \<Rightarrow>
          Some (s\<lparr>a_pairs := replicate (nat pairs) (one_pair iters), a_driver := AAwait\<rparr>)
      | AAwait \<Rightarrow>
          if list_all pair_done (a_pairs s) then Some (s\<lparr>a_driver := ANow1\<rparr>) else None
      | ANow1 \<Rightarrow>
          (case a_t0 s of
             None \<Rightarrow> None
           | Some t0 \<Rightarrow> Some (s\<lparr>a_result := Some (now (a_ticks s) - t0), a_driver := AReturn\<rparr>))
      | AReturn \<Rightarrow> None)"

definition asyncio_worker :: "(pair \<Rightarrow> pair option) \<Rightarrow> nat \<Rightarrow> astate \<Rightarrow> astate option" where
  "asyncio_worker f k s =
     (if k < length (a_pairs s) then
        (case f (a_pairs s ! k) of
           None \<Rightarrow> None
         | Some p \<Rightarrow> Some (s\<lparr>a_pairs := (a_pairs s)[k := p]\<rparr>))
      else None)"

definition pingpong_asyncio_step ::
    "(nat \<Rightarrow> real) \<Rightarrow> int \<Rightarrow> int \<Rightarrow> actor \<Rightarrow> astate \<Rightarrow> astate option" where
  "pingpong_asyncio_step now iters pairs a s =
     map_option (\<lambda>s'. s'\<lparr>a_ticks := Suc (a_ticks s)\<rparr>)
       (case a of
          Driver \<Rightarrow> asyncio_driver now iters pairs s
        | Pinger k \<Rightarrow> asyncio_worker (pinger_step iters) k s
        | Ponger k \<Rightarrow> asyncio_worker (ponger_step iters) k s)"

text \<open>The state \<^verbatim>\<open>pingpong_asyncio(iters, pairs)\<close> is in after a schedule.\<close>

definition pingpong_asyncio ::
    "(nat \<Rightarrow> real) \<Rightarrow> int \<Rightarrow> int \<Rightarrow> actor list \<Rightarrow> astate option" where
  "pingpong_asyncio now iters pairs sched =
     exec (pingpong_asyncio_step now iters pairs) sched pingpong_asyncio_init"

subsection \<open>\<^verbatim>\<open>pingpong_threads\<close>\<close>

text \<open>
  \<^verbatim>\<open>threading.Barrier(parties)\<close>, used once: a call of \<^verbatim>\<open>wait\<close> is counted, the
  call that makes the count equal to \<open>parties\<close> releases the barrier, and a caller
  returns from \<^verbatim>\<open>wait\<close> once the barrier is released.
\<close>

record barrier =
  b_parties :: int
  b_count :: int
  b_released :: bool

definition arrive :: "barrier \<Rightarrow> barrier" where
  "arrive b =
     b\<lparr>b_count := b_count b + 1,
       b_released := (b_released b \<or> b_count b + 1 = b_parties b)\<rparr>"

text \<open>
  The driver: \<open>TStart k\<close> is about to start thread \<open>k\<close> of \<^verbatim>\<open>threads\<close>, \<open>TNow0\<close> about
  to read \<^verbatim>\<open>t0 = now()\<close>, \<open>TArrive\<close> about to call \<^verbatim>\<open>start.wait()\<close>, \<open>TBlocked\<close>
  inside it, \<open>TJoin k\<close> about to join thread \<open>k\<close>, \<open>TNow1\<close> about to compute
  \<^verbatim>\<open>now() - t0\<close>.
\<close>

datatype tdriver = TStart nat | TNow0 | TArrive | TBlocked | TJoin nat | TNow1 | TReturn

record tstate =
  t_pairs :: "pair list"
  start :: barrier
  t_driver :: tdriver
  t_ticks :: nat
  t_t0 :: "real option"
  t_result :: "real option"

text \<open>\<^verbatim>\<open>add_pair\<close>: two fresh queues and two thread objects, not yet started.\<close>

definition add_pair :: pair where
  "add_pair = \<lparr>q1 = new_queue, q2 = new_queue, pinger = PiNew, ponger = PoNew\<rparr>"

text \<open>
  \<^verbatim>\<open>threads\<close> holds the pinger of pair \<open>j\<close> at index \<open>2 * j\<close> and its ponger at
  index \<open>2 * j + 1\<close>. The heads of the two loops over \<^verbatim>\<open>threads\<close>:
\<close>

definition start_loop :: "nat \<Rightarrow> nat \<Rightarrow> tdriver" where
  "start_loop n k = (if k < n then TStart k else TNow0)"

definition join_loop :: "nat \<Rightarrow> nat \<Rightarrow> tdriver" where
  "join_loop n k = (if k < n then TJoin k else TNow1)"

text \<open>The state when the loop over \<^verbatim>\<open>range(pairs)\<close> has called \<^verbatim>\<open>add_pair\<close>.\<close>

definition pingpong_threads_init :: "int \<Rightarrow> tstate" where
  "pingpong_threads_init pairs =
     \<lparr>t_pairs = replicate (nat pairs) add_pair,
      start = \<lparr>b_parties = 2 * pairs + 1, b_count = 0, b_released = False\<rparr>,
      t_driver = start_loop (2 * nat pairs) 0,
      t_ticks = 0, t_t0 = None, t_result = None\<rparr>"

text \<open>\<^verbatim>\<open>th.start()\<close> and the test that \<^verbatim>\<open>th.join()\<close> waits for, for thread \<open>k\<close>.\<close>

definition thread_start :: "nat \<Rightarrow> pair list \<Rightarrow> pair list option" where
  "thread_start k ps =
     (if k div 2 < length ps then
        (let p = ps ! (k div 2) in
         if even k then
           (if pinger p = PiNew then Some (ps[k div 2 := p\<lparr>pinger := PiStarted\<rparr>]) else None)
         else
           (if ponger p = PoNew then Some (ps[k div 2 := p\<lparr>ponger := PoStarted\<rparr>]) else None))
      else None)"

definition thread_finished :: "nat \<Rightarrow> pair list \<Rightarrow> bool" where
  "thread_finished k ps \<longleftrightarrow>
     k div 2 < length ps \<and>
     (if even k then pinger (ps ! (k div 2)) = PiDone else ponger (ps ! (k div 2)) = PoDone)"

definition threads_driver :: "(nat \<Rightarrow> real) \<Rightarrow> tstate \<Rightarrow> tstate option" where
  "threads_driver now s =
     (let n = 2 * length (t_pairs s) in
      case t_driver s of
        TStart k \<Rightarrow>
          (case thread_start k (t_pairs s) of
             None \<Rightarrow> None
           | Some ps \<Rightarrow> Some (s\<lparr>t_pairs := ps, t_driver := start_loop n (k + 1)\<rparr>))
      | TNow0 \<Rightarrow> Some (s\<lparr>t_t0 := Some (now (t_ticks s)), t_driver := TArrive\<rparr>)
      | TArrive \<Rightarrow> Some (s\<lparr>start := arrive (start s), t_driver := TBlocked\<rparr>)
      | TBlocked \<Rightarrow>
          if b_released (start s) then Some (s\<lparr>t_driver := join_loop n 0\<rparr>) else None
      | TJoin k \<Rightarrow>
          if thread_finished k (t_pairs s) then Some (s\<lparr>t_driver := join_loop n (k + 1)\<rparr>)
          else None
      | TNow1 \<Rightarrow>
          (case t_t0 s of
             None \<Rightarrow> None
           | Some t0 \<Rightarrow> Some (s\<lparr>t_result := Some (now (t_ticks s) - t0), t_driver := TReturn\<rparr>))
      | TReturn \<Rightarrow> None)"

text \<open>
  A worker thread: \<^verbatim>\<open>start.wait()\<close> first (the call, then the return once the
  barrier is released), then its loop. A thread touches the barrier and its own
  pair only.
\<close>

definition thread_pinger :: "int \<Rightarrow> barrier \<Rightarrow> pair \<Rightarrow> (barrier \<times> pair) option" where
  "thread_pinger iters b p =
     (case pinger p of
        PiNew \<Rightarrow> None
      | PiStarted \<Rightarrow> Some (arrive b, p\<lparr>pinger := PiWaiting\<rparr>)
      | PiWaiting \<Rightarrow>
          if b_released b then Some (b, p\<lparr>pinger := pinger_loop iters 0\<rparr>) else None
      | _ \<Rightarrow> map_option (Pair b) (pinger_step iters p))"

definition thread_ponger :: "int \<Rightarrow> barrier \<Rightarrow> pair \<Rightarrow> (barrier \<times> pair) option" where
  "thread_ponger iters b p =
     (case ponger p of
        PoNew \<Rightarrow> None
      | PoStarted \<Rightarrow> Some (arrive b, p\<lparr>ponger := PoWaiting\<rparr>)
      | PoWaiting \<Rightarrow>
          if b_released b then Some (b, p\<lparr>ponger := ponger_loop iters 0\<rparr>) else None
      | _ \<Rightarrow> map_option (Pair b) (ponger_step iters p))"

definition threads_worker ::
    "(barrier \<Rightarrow> pair \<Rightarrow> (barrier \<times> pair) option) \<Rightarrow> nat \<Rightarrow> tstate \<Rightarrow> tstate option" where
  "threads_worker f k s =
     (if k < length (t_pairs s) then
        (case f (start s) (t_pairs s ! k) of
           None \<Rightarrow> None
         | Some (b, p) \<Rightarrow> Some (s\<lparr>start := b, t_pairs := (t_pairs s)[k := p]\<rparr>))
      else None)"

definition pingpong_threads_step ::
    "(nat \<Rightarrow> real) \<Rightarrow> int \<Rightarrow> actor \<Rightarrow> tstate \<Rightarrow> tstate option" where
  "pingpong_threads_step now iters a s =
     map_option (\<lambda>s'. s'\<lparr>t_ticks := Suc (t_ticks s)\<rparr>)
       (case a of
          Driver \<Rightarrow> threads_driver now s
        | Pinger k \<Rightarrow> threads_worker (thread_pinger iters) k s
        | Ponger k \<Rightarrow> threads_worker (thread_ponger iters) k s)"

text \<open>The state \<^verbatim>\<open>pingpong_threads(iters, pairs)\<close> is in after a schedule.\<close>

definition pingpong_threads ::
    "(nat \<Rightarrow> real) \<Rightarrow> int \<Rightarrow> int \<Rightarrow> actor list \<Rightarrow> tstate option" where
  "pingpong_threads now iters pairs sched =
     exec (pingpong_threads_step now iters) sched (pingpong_threads_init pairs)"

subsection \<open>What holds of a pair at every moment\<close>

text \<open>
  How many operations a worker has completed, read off from where it stands:
  the pinger's puts on \<open>q1\<close> and gets on \<open>q2\<close>, the ponger's gets on \<open>q1\<close> and puts
  on \<open>q2\<close>.
\<close>

fun pi_puts :: "int \<Rightarrow> pinger_pc \<Rightarrow> int" where
  "pi_puts n (PiPut i) = i"
| "pi_puts n (PiGet i) = i + 1"
| "pi_puts n PiDone = max 0 n"
| "pi_puts n _ = 0"

fun pi_gets :: "int \<Rightarrow> pinger_pc \<Rightarrow> int" where
  "pi_gets n (PiPut i) = i"
| "pi_gets n (PiGet i) = i"
| "pi_gets n PiDone = max 0 n"
| "pi_gets n _ = 0"

fun po_gets :: "int \<Rightarrow> ponger_pc \<Rightarrow> int" where
  "po_gets n (PoGet j) = j"
| "po_gets n (PoPut j v) = j + 1"
| "po_gets n PoDone = max 0 n"
| "po_gets n _ = 0"

fun po_puts :: "int \<Rightarrow> ponger_pc \<Rightarrow> int" where
  "po_puts n (PoGet j) = j"
| "po_puts n (PoPut j v) = j"
| "po_puts n PoDone = max 0 n"
| "po_puts n _ = 0"

fun pinger_ok :: "int \<Rightarrow> pinger_pc \<Rightarrow> bool" where
  "pinger_ok n (PiPut i) = (0 \<le> i \<and> i < n)"
| "pinger_ok n (PiGet i) = (0 \<le> i \<and> i < n)"
| "pinger_ok n _ = True"

fun ponger_ok :: "int \<Rightarrow> ponger_pc \<Rightarrow> bool" where
  "ponger_ok n (PoGet j) = (0 \<le> j \<and> j < n)"
| "ponger_ok n (PoPut j v) = (0 \<le> j \<and> j < n \<and> v = j)"
| "ponger_ok n _ = True"

text \<open>
  A queue after \<open>u\<close> puts and \<open>g\<close> gets: the values put were \<open>0, \<dots>, u - 1\<close>, the
  values got were \<open>0, \<dots>, g - 1\<close>, and what is left is in the queue.
\<close>

definition chan_is :: "chan \<Rightarrow> int \<Rightarrow> int \<Rightarrow> bool" where
  "chan_is q g u \<longleftrightarrow>
     0 \<le> g \<and> g \<le> u \<and> u \<le> g + 1 \<and>
     put_log q = [0..u - 1] \<and> get_log q = [0..g - 1] \<and> q_items q = [g..u - 1]"

definition pair_inv :: "int \<Rightarrow> pair \<Rightarrow> bool" where
  "pair_inv iters p \<longleftrightarrow>
     pinger_ok iters (pinger p) \<and> ponger_ok iters (ponger p) \<and>
     chan_is (q1 p) (po_gets iters (ponger p)) (pi_puts iters (pinger p)) \<and>
     chan_is (q2 p) (pi_gets iters (pinger p)) (po_puts iters (ponger p))"

text \<open>The steps a worker still has to take (its own; being started is the driver's).\<close>

fun pi_left :: "int \<Rightarrow> pinger_pc \<Rightarrow> nat" where
  "pi_left n PiNew = 2 + 2 * nat n"
| "pi_left n PiStarted = 2 + 2 * nat n"
| "pi_left n PiWaiting = 1 + 2 * nat n"
| "pi_left n (PiPut i) = 2 * nat (n - i)"
| "pi_left n (PiGet i) = 2 * nat (n - i) - 1"
| "pi_left n PiDone = 0"

fun po_left :: "int \<Rightarrow> ponger_pc \<Rightarrow> nat" where
  "po_left n PoNew = 2 + 2 * nat n"
| "po_left n PoStarted = 2 + 2 * nat n"
| "po_left n PoWaiting = 1 + 2 * nat n"
| "po_left n (PoGet j) = 2 * nat (n - j)"
| "po_left n (PoPut j v) = 2 * nat (n - j) - 1"
| "po_left n PoDone = 0"

definition pair_left :: "int \<Rightarrow> pair \<Rightarrow> nat" where
  "pair_left iters p = pi_left iters (pinger p) + po_left iters (ponger p)"

text \<open>Whether a worker has called \<^verbatim>\<open>start.wait()\<close>, and whether it has returned from it.\<close>

fun pi_arrived :: "pinger_pc \<Rightarrow> bool" where
  "pi_arrived PiNew = False"
| "pi_arrived PiStarted = False"
| "pi_arrived _ = True"

fun po_arrived :: "ponger_pc \<Rightarrow> bool" where
  "po_arrived PoNew = False"
| "po_arrived PoStarted = False"
| "po_arrived _ = True"

fun pi_passed :: "pinger_pc \<Rightarrow> bool" where
  "pi_passed PiNew = False"
| "pi_passed PiStarted = False"
| "pi_passed PiWaiting = False"
| "pi_passed _ = True"

fun po_passed :: "ponger_pc \<Rightarrow> bool" where
  "po_passed PoNew = False"
| "po_passed PoStarted = False"
| "po_passed PoWaiting = False"
| "po_passed _ = True"

fun driver_arrived :: "tdriver \<Rightarrow> bool" where
  "driver_arrived (TStart k) = False"
| "driver_arrived TNow0 = False"
| "driver_arrived TArrive = False"
| "driver_arrived _ = True"

fun driver_passed :: "tdriver \<Rightarrow> bool" where
  "driver_passed (TJoin k) = True"
| "driver_passed TNow1 = True"
| "driver_passed TReturn = True"
| "driver_passed _ = False"

definition pair_arrivals :: "pair \<Rightarrow> nat" where
  "pair_arrivals p =
     (if pi_arrived (pinger p) then 1 else 0) + (if po_arrived (ponger p) then 1 else 0)"

definition arrivals :: "pair list \<Rightarrow> nat" where
  "arrivals ps = sum_list (map pair_arrivals ps)"

text \<open>The number of channel operations performed so far on the queues of a pair.\<close>

definition q1_ops :: "pair \<Rightarrow> nat" where
  "q1_ops p = length (put_log (q1 p)) + length (get_log (q1 p))"

definition q2_ops :: "pair \<Rightarrow> nat" where
  "q2_ops p = length (put_log (q2 p)) + length (get_log (q2 p))"

definition no_ops :: "pair \<Rightarrow> bool" where
  "no_ops p \<longleftrightarrow>
     put_log (q1 p) = [] \<and> get_log (q1 p) = [] \<and> put_log (q2 p) = [] \<and> get_log (q2 p) = []"

subsection \<open>What holds of \<^verbatim>\<open>pingpong_asyncio\<close> at every moment\<close>

definition a_clock_ok :: "(nat \<Rightarrow> real) \<Rightarrow> astate \<Rightarrow> bool" where
  "a_clock_ok now s \<longleftrightarrow>
     (case a_driver s of
        ANow0 \<Rightarrow> a_t0 s = None
      | AReturn \<Rightarrow> (\<exists>\<tau>0 \<tau>1. \<tau>0 \<le> \<tau>1 \<and> a_result s = Some (now \<tau>1 - now \<tau>0))
      | _ \<Rightarrow> (\<exists>\<tau>\<le>a_ticks s. a_t0 s = Some (now \<tau>)))"

definition a_driver_ok :: "int \<Rightarrow> astate \<Rightarrow> bool" where
  "a_driver_ok pairs s \<longleftrightarrow>
     (case a_driver s of
        ANow0 \<Rightarrow> a_pairs s = []
      | AGather \<Rightarrow> a_pairs s = []
      | AAwait \<Rightarrow> length (a_pairs s) = nat pairs
      | _ \<Rightarrow> length (a_pairs s) = nat pairs \<and> list_all pair_done (a_pairs s))"

definition ainv :: "(nat \<Rightarrow> real) \<Rightarrow> int \<Rightarrow> int \<Rightarrow> astate \<Rightarrow> bool" where
  "ainv now iters pairs s \<longleftrightarrow>
     (\<forall>p\<in>set (a_pairs s). pair_inv iters p \<and> pi_passed (pinger p) \<and> po_passed (ponger p)) \<and>
     a_driver_ok pairs s \<and> a_clock_ok now s"

text \<open>The number of steps that are left to a run.\<close>

definition a_left :: "int \<Rightarrow> int \<Rightarrow> astate \<Rightarrow> nat" where
  "a_left iters pairs s =
     (case a_driver s of
        ANow0 \<Rightarrow> 4 + nat pairs * (4 * nat iters)
      | AGather \<Rightarrow> 3 + nat pairs * (4 * nat iters)
      | AAwait \<Rightarrow> 2 + sum_list (map (pair_left iters) (a_pairs s))
      | ANow1 \<Rightarrow> 1
      | AReturn \<Rightarrow> 0)"

subsection \<open>What holds of \<^verbatim>\<open>pingpong_threads\<close> at every moment\<close>

definition t_clock_ok :: "(nat \<Rightarrow> real) \<Rightarrow> tstate \<Rightarrow> bool" where
  "t_clock_ok now s \<longleftrightarrow>
     (case t_driver s of
        TStart k \<Rightarrow> t_t0 s = None
      | TNow0 \<Rightarrow> t_t0 s = None
      | TReturn \<Rightarrow>
          t_t0 s \<noteq> None \<and> (\<exists>\<tau>0 \<tau>1. \<tau>0 \<le> \<tau>1 \<and> t_result s = Some (now \<tau>1 - now \<tau>0))
      | _ \<Rightarrow> (\<exists>\<tau>\<le>t_ticks s. t_t0 s = Some (now \<tau>)))"

definition t_barrier_ok :: "tstate \<Rightarrow> bool" where
  "t_barrier_ok s \<longleftrightarrow>
     b_parties (start s) = 2 * int (length (t_pairs s)) + 1 \<and>
     b_count (start s) =
       int (arrivals (t_pairs s)) + (if driver_arrived (t_driver s) then 1 else 0) \<and>
     (b_released (start s) \<longrightarrow> b_parties (start s) \<le> b_count (start s)) \<and>
     (\<not> b_released (start s) \<longrightarrow> b_count (start s) < b_parties (start s))"

definition pair_ok :: "int \<Rightarrow> bool \<Rightarrow> pair \<Rightarrow> bool" where
  "pair_ok iters released p \<longleftrightarrow>
     pair_inv iters p \<and> (pi_passed (pinger p) \<longrightarrow> released) \<and>
     (po_passed (ponger p) \<longrightarrow> released)"

definition all_started :: "pair list \<Rightarrow> bool" where
  "all_started ps \<longleftrightarrow> (\<forall>p\<in>set ps. pinger p \<noteq> PiNew \<and> ponger p \<noteq> PoNew)"

definition thread_new :: "nat \<Rightarrow> pair list \<Rightarrow> bool" where
  "thread_new k ps \<longleftrightarrow>
     (if even k then pinger (ps ! (k div 2)) = PiNew else ponger (ps ! (k div 2)) = PoNew)"

definition t_driver_ok :: "tstate \<Rightarrow> bool" where
  "t_driver_ok s \<longleftrightarrow>
     (case t_driver s of
        TStart k \<Rightarrow>
          k < 2 * length (t_pairs s) \<and>
          (\<forall>t<2 * length (t_pairs s). thread_new t (t_pairs s) \<longleftrightarrow> k \<le> t)
      | TJoin k \<Rightarrow>
          k < 2 * length (t_pairs s) \<and> all_started (t_pairs s) \<and> b_released (start s) \<and>
          (\<forall>t<k. thread_finished t (t_pairs s))
      | TNow1 \<Rightarrow>
          all_started (t_pairs s) \<and> b_released (start s) \<and> list_all pair_done (t_pairs s)
      | TReturn \<Rightarrow>
          all_started (t_pairs s) \<and> b_released (start s) \<and> list_all pair_done (t_pairs s)
      | _ \<Rightarrow> all_started (t_pairs s))"

definition tinv :: "(nat \<Rightarrow> real) \<Rightarrow> int \<Rightarrow> int \<Rightarrow> tstate \<Rightarrow> bool" where
  "tinv now iters pairs s \<longleftrightarrow>
     length (t_pairs s) = nat pairs \<and>
     (\<forall>p\<in>set (t_pairs s). pair_ok iters (b_released (start s)) p) \<and>
     t_barrier_ok s \<and> t_driver_ok s \<and> t_clock_ok now s"

fun tdriver_left :: "nat \<Rightarrow> tdriver \<Rightarrow> nat" where
  "tdriver_left n (TStart k) = (n - k) + n + 4"
| "tdriver_left n TNow0 = n + 4"
| "tdriver_left n TArrive = n + 3"
| "tdriver_left n TBlocked = n + 2"
| "tdriver_left n (TJoin k) = (n - k) + 1"
| "tdriver_left n TNow1 = 1"
| "tdriver_left n TReturn = 0"

definition t_left :: "int \<Rightarrow> tstate \<Rightarrow> nat" where
  "t_left iters s =
     tdriver_left (2 * length (t_pairs s)) (t_driver s) +
     sum_list (map (pair_left iters) (t_pairs s))"

text \<open>What one step of a worker thread does to the barrier and to its pair.\<close>

definition worker_step_ok :: "int \<Rightarrow> barrier \<Rightarrow> pair \<Rightarrow> barrier \<Rightarrow> pair \<Rightarrow> bool" where
  "worker_step_ok iters b p b' p' \<longleftrightarrow>
     pair_inv iters p' \<and> Suc (pair_left iters p') = pair_left iters p \<and>
     (pinger p' = PiNew \<longleftrightarrow> pinger p = PiNew) \<and> (ponger p' = PoNew \<longleftrightarrow> ponger p = PoNew) \<and>
     (pinger p = PiDone \<longrightarrow> pinger p' = PiDone) \<and> (ponger p = PoDone \<longrightarrow> ponger p' = PoDone) \<and>
     \<not> pair_done p \<and>
     ((b' = b \<and> pair_arrivals p' = pair_arrivals p) \<or>
      (b' = arrive b \<and> pair_arrivals p' = Suc (pair_arrivals p))) \<and>
     (pi_passed (pinger p') \<longrightarrow> b_released b') \<and> (po_passed (ponger p') \<longrightarrow> b_released b')"

subsection \<open>The driver of \<^verbatim>\<open>pingpong_threads\<close> along a schedule\<close>

text \<open>
  The ticks at which the driver moves are the positions of \<open>Driver\<close> in the schedule;
  a step taken at tick \<open>\<tau>\<close> that reads the clock reads \<open>now \<tau>\<close>.
\<close>

definition driver_ticks :: "actor list \<Rightarrow> nat list" where
  "driver_ticks sched = filter (\<lambda>i. sched ! i = Driver) [0..<length sched]"

text \<open>
  The statement the driver of \<^verbatim>\<open>pingpong_threads\<close> is at when it has taken \<open>m\<close> steps,
  for \<open>n\<close> threads, in the order of the lines 83 to 90: \<open>n\<close> times \<^verbatim>\<open>th.start()\<close>,
  then \<^verbatim>\<open>t0 = now()\<close>, the call of \<^verbatim>\<open>start.wait()\<close>, the return from it, \<open>n\<close> times
  \<^verbatim>\<open>th.join()\<close>, and \<^verbatim>\<open>now() - t0\<close>.
\<close>

definition driver_at :: "nat \<Rightarrow> nat \<Rightarrow> tdriver" where
  "driver_at n m =
     (if m < n then TStart m
      else if m = n then TNow0
      else if m = n + 1 then TArrive
      else if m = n + 2 then TBlocked
      else if m < 2 * n + 3 then TJoin (m - (n + 3))
      else if m = 2 * n + 3 then TNow1
      else TReturn)"

subsection \<open>Predicates of the statements\<close>

text \<open>
  The counts of a completed run: every queue of every pair has seen \<open>iters\<close> puts and
  \<open>iters\<close> gets, which makes \<open>pairs * (2 * iters)\<close> operations on the first queues of
  all pairs, and as many on the second.
\<close>

definition all_counts :: "int \<Rightarrow> int \<Rightarrow> pair list \<Rightarrow> bool" where
  "all_counts iters pairs ps \<longleftrightarrow>
     length ps = nat pairs \<and>
     (\<forall>p\<in>set ps.
        length (put_log (q1 p)) = nat iters \<and> length (get_log (q1 p)) = nat iters \<and>
        length (put_log (q2 p)) = nat iters \<and> length (get_log (q2 p)) = nat iters) \<and>
     int (sum_list (map q1_ops ps)) = pairs * (2 * iters) \<and>
     int (sum_list (map q2_ops ps)) = pairs * (2 * iters)"

text \<open>
  The values of a completed run: what the ponger got from \<open>q1\<close> is what the pinger
  put, \<open>0, \<dots>, iters - 1\<close> in this order, and what the pinger got from \<open>q2\<close> is what
  the ponger put, the same list.
\<close>

definition all_values :: "int \<Rightarrow> pair list \<Rightarrow> bool" where
  "all_values iters ps \<longleftrightarrow>
     (\<forall>p\<in>set ps.
        put_log (q1 p) = [0..iters - 1] \<and> get_log (q1 p) = [0..iters - 1] \<and>
        put_log (q2 p) = [0..iters - 1] \<and> get_log (q2 p) = [0..iters - 1])"

text \<open>At every moment a queue holds exactly the values put and not yet got, in order.\<close>

definition fifo :: "pair list \<Rightarrow> bool" where
  "fifo ps \<longleftrightarrow>
     (\<forall>p\<in>set ps.
        put_log (q1 p) = get_log (q1 p) @ q_items (q1 p) \<and>
        put_log (q2 p) = get_log (q2 p) @ q_items (q2 p))"

subsection \<open>Example schedules\<close>

text \<open>
  One complete run of each function for two iterations and one pair, and one for
  no iteration at all.
\<close>

definition asyncio_example :: "actor list" where
  "asyncio_example =
     [Driver, Driver, Pinger 0, Ponger 0, Ponger 0, Pinger 0, Pinger 0, Ponger 0, Ponger 0,
      Pinger 0, Driver, Driver]"

definition threads_example :: "actor list" where
  "threads_example =
     [Driver, Driver, Pinger 0, Ponger 0, Driver, Driver, Driver, Pinger 0, Ponger 0,
      Pinger 0, Ponger 0, Ponger 0, Pinger 0, Pinger 0, Ponger 0, Ponger 0, Pinger 0,
      Driver, Driver, Driver]"

definition asyncio_idle :: "actor list" where
  "asyncio_idle = [Driver, Driver, Driver, Driver]"

definition threads_idle :: "actor list" where
  "threads_idle =
     [Driver, Driver, Driver, Driver, Pinger 0, Ponger 0, Pinger 0, Ponger 0,
      Driver, Driver, Driver, Driver]"

section \<open>Properties of the floats\<close>

lemma round_even_int: "round_even (of_int m) = m"
  by (simp add: round_even_def)

lemma round_even_bounds: "of_int \<lfloor>q\<rfloor> \<le> (of_int (round_even q) :: real) \<and> of_int (round_even q) \<le> q + 1"
  by (auto simp: round_even_def Let_def) linarith+


lemma floor_log2:
  assumes "0 < x" and "2 powr of_int e \<le> x" and "x < 2 powr (of_int e + 1)"
  shows "\<lfloor>log 2 x\<rfloor> = e"
proof -
  from assms have "of_int e \<le> log 2 x" by (simp add: le_log_iff)
  moreover from assms have "log 2 x < of_int e + 1" by (simp add: log_less_iff)
  ultimately show ?thesis by (simp add: floor_eq_iff)
qed

lemma floor_log2_bounds:
  assumes "0 < x"
  shows "2 powr of_int \<lfloor>log 2 x\<rfloor> \<le> x" and "x < 2 powr (of_int \<lfloor>log 2 x\<rfloor> + 1)"
proof -
  have "of_int \<lfloor>log 2 x\<rfloor> \<le> log 2 x" by simp
  with assms show "2 powr of_int \<lfloor>log 2 x\<rfloor> \<le> x"
    using le_log_iff [of 2 x "of_int \<lfloor>log 2 x\<rfloor>"] by linarith
  have "log 2 x < of_int \<lfloor>log 2 x\<rfloor> + 1" by linarith
  with assms show "x < 2 powr (of_int \<lfloor>log 2 x\<rfloor> + 1)"
    using log_less_iff [of 2 x "of_int \<lfloor>log 2 x\<rfloor> + 1"] by linarith
qed

lemma ulp_pos: "0 < ulp x"
  by (simp add: ulp_def)

lemma ulp_normal:
  assumes "0 < x" and "- 1022 \<le> \<lfloor>log 2 x\<rfloor>"
  shows "ulp x = 2 powr (of_int \<lfloor>log 2 x\<rfloor> - 52)"
  unfolding ulp_def abs_of_pos [OF assms(1)] max_absorb1 [OF assms(2)] ..

lemma ulp_le:
  assumes "0 < x" and "2 powr (- 1022) \<le> x"
  shows "ulp x * 2 powr 52 \<le> x"
proof -
  have "- 1022 \<le> log 2 x" using assms le_log_iff [of 2 x "- 1022"] by simp
  then have e: "- 1022 \<le> \<lfloor>log 2 x\<rfloor>" by (simp add: le_floor_iff)
  have "ulp x * 2 powr 52 = 2 powr (of_int \<lfloor>log 2 x\<rfloor> - 52) * 2 powr 52"
    unfolding ulp_normal [OF assms(1) e] ..
  also have "\<dots> = 2 powr (of_int \<lfloor>log 2 x\<rfloor> - 52 + 52)"
    by (rule powr_add [symmetric])
  also have "\<dots> = 2 powr of_int \<lfloor>log 2 x\<rfloor>" by (simp only: diff_add_cancel)
  also have "\<dots> \<le> x" using floor_log2_bounds(1) [OF assms(1)] .
  finally show ?thesis .
qed

lemma ulp_subnormal:
  assumes "0 < x" and "x < 2 powr (- 1022)"
  shows "ulp x = 2 powr (- 1074)"
proof -
  have "log 2 x < - 1022" using assms log_less_iff [of 2 x "- 1022"] by simp
  then have "\<lfloor>log 2 x\<rfloor> < - 1022" by (simp add: floor_less_iff)
  then have "max \<lfloor>log 2 x\<rfloor> (- 1022) = - 1022" by (rule_tac max_absorb2) simp
  then have "ulp x = 2 powr (of_int (- 1022) - 52)"
    unfolding ulp_def abs_of_pos [OF assms(1)] by (simp only:)
  then show ?thesis by simp
qed



lemma rounded_lower:
  assumes "0 < x" and "2 powr (- 1022) \<le> x"
  shows "2 powr of_int \<lfloor>log 2 x\<rfloor> \<le> rounded x"
proof -
  have "- 1022 \<le> log 2 x" using assms le_log_iff [of 2 x "- 1022"] by simp
  then have e: "- 1022 \<le> \<lfloor>log 2 x\<rfloor>" by (simp add: le_floor_iff)
  have u: "ulp x * 2 powr 52 = 2 powr of_int \<lfloor>log 2 x\<rfloor>"
    unfolding ulp_normal [OF assms(1) e] powr_add [symmetric] by (simp only: diff_add_cancel)
  from ulp_le [OF assms] have "2 powr 52 \<le> x / ulp x"
    using ulp_pos [of x] by (simp add: pos_le_divide_eq mult.commute)
  then have "of_int (2 ^ 52) \<le> x / ulp x" by simp
  then have "2 ^ 52 \<le> \<lfloor>x / ulp x\<rfloor>" by (simp only: le_floor_iff)
  then have "(of_int (2 ^ 52) :: real) \<le> of_int \<lfloor>x / ulp x\<rfloor>" by (simp only: of_int_le_iff)
  also have "\<dots> \<le> of_int (round_even (x / ulp x))" using round_even_bounds by blast
  finally have "2 powr 52 \<le> (of_int (round_even (x / ulp x)) :: real)" by simp
  then have "2 powr 52 * ulp x \<le> of_int (round_even (x / ulp x)) * ulp x"
    using ulp_pos [of x] by (simp only: mult_le_cancel_right_pos)
  then show ?thesis using assms(1) u by (simp add: rounded_def mult.commute)
qed

lemma two_powr_neg_le_1: "a \<le> 0 \<Longrightarrow> 2 powr a \<le> (1::real)"
  using powr_mono [of a 0 2] by simp




lemma ulp_bound:
  assumes "0 < x" and "x < 2 ^ 1023"
  shows "ulp x \<le> 2 ^ 1023"
proof (cases "2 powr (- 1022) \<le> x")
  case True
  have "ulp x * 1 \<le> ulp x * 2 powr 52" using ulp_pos [of x] by (simp only: mult_le_cancel_left_pos) simp
  with ulp_le [OF assms(1) True] assms(2) show ?thesis by simp
next
  case False
  then have "ulp x = 2 powr (- 1074)" using ulp_subnormal [OF assms(1)] by simp
  moreover have "2 powr (- 1074) \<le> (1::real)" by (rule two_powr_neg_le_1) simp
  moreover have "(1::real) \<le> 2 ^ 1023" by simp
  ultimately show ?thesis by linarith
qed


text \<open>Integers below \<open>2 ^ 53\<close> are floats.\<close>

lemma rounded_int:
  assumes "1 \<le> n" and "n < 2 ^ 53"
  shows "rounded (of_int n) = of_int n"
proof -
  define x :: real where "x = of_int n"
  define e where "e = \<lfloor>log 2 x\<rfloor>"
  have x1: "1 \<le> x" using assms by (simp add: x_def)
  then have x: "0 < x" by simp
  have "0 \<le> log 2 x" using x1 by simp
  then have e0: "0 \<le> e" by (simp add: e_def)
  have "x < 2 ^ 53" using assms(2) unfolding x_def by (metis of_int_less_iff of_int_numeral of_int_power)
  then have "x < 2 powr 53" by simp
  then have "log 2 x < 53" using x log_less_iff [of 2 x 53] by simp
  then have e52: "e \<le> 52" unfolding e_def by (simp add: floor_less_iff [symmetric] del: floor_less_iff)
  have u: "ulp x = 2 powr (of_int e - 52)"
    unfolding e_def using e0 by (intro ulp_normal [OF x]) (simp add: e_def)
  define k where "k = nat (52 - e)"
  have k: "of_int e - 52 = - real k" using e52 by (simp add: k_def)
  have u': "ulp x = 1 / 2 ^ k" unfolding u k by (simp add: powr_minus powr_realpow field_simps)
  have "x / ulp x = of_int (n * 2 ^ k)" by (simp only: u') (simp add: x_def)
  then have "round_even (x / ulp x) = n * 2 ^ k" by (simp only: round_even_int)
  then have "rounded x = of_int (n * 2 ^ k) * (1 / 2 ^ k)" using x by (simp add: rounded_def u')
  then have "rounded x = of_int n" by simp
  then show ?thesis by (simp only: x_def)
qed




lemma rounded_0: "rounded 0 = 0"
  by (simp add: rounded_def)

lemma round64_int:
  assumes "0 \<le> n" and "n < 2 ^ 53"
  shows "round64 (of_int n) = Fin (of_int n)"
proof (cases "n = 0")
  case True
  then show ?thesis by (simp add: round64_def rounded_0)
next
  case False
  with assms have n: "1 \<le> n" by simp
  have "real_of_int n < 2 ^ 53"
    using assms(2) by (metis of_int_less_iff of_int_numeral of_int_power)
  moreover have "(2::real) ^ 53 < 2 ^ 1024" by simp
  ultimately have "real_of_int n < 2 ^ 1024" by (rule less_trans)
  moreover have "(0::real) \<le> of_int n" using assms(1) by simp
  moreover have "- ((2::real) ^ 1024) < 0" by simp
  ultimately show ?thesis
    unfolding round64_def rounded_int [OF n assms(2)] Let_def by auto
qed

lemma round64_numeral:
  "(numeral k :: int) < 2 ^ 53 \<Longrightarrow> round64 (numeral k) = Fin (numeral k)"
  using round64_int [of "numeral k"] by simp

lemma round64_1: "round64 1 = Fin 1"
  using round64_int [of 1] by simp

lemma round64_0: "round64 0 = Fin 0"
  using round64_int [of 0] by simp





lemma rounded_eval:
  assumes "0 < x" and "2 powr of_int e \<le> x" and "x < 2 powr (of_int e + 1)" and "- 1022 \<le> e"
  shows "rounded x = of_int (round_even (x / 2 powr (of_int e - 52))) * 2 powr (of_int e - 52)"
proof -
  have e: "\<lfloor>log 2 x\<rfloor> = e" using assms(1-3) by (rule floor_log2)
  have "ulp x = 2 powr (of_int e - 52)" using ulp_normal [OF assms(1)] assms(4) by (simp add: e)
  then show ?thesis using assms(1) by (simp add: rounded_def)
qed

text \<open>
  The float nearest to one tenth is \<open>3602879701896397 / 2 ^ 55\<close>. One divided by it is
  just below ten as a real number, and exactly ten as a float: for an elapsed time of
  \<^verbatim>\<open>0.1\<close> and one iteration of one pair the integer shown is 10.
\<close>

lemma rps_one_tenth:
  "rps 1 1 (3602879701896397 / 2 ^ 55) = Inr (Fin 10) \<and> float_to_int (Fin 10) = Inr 10 \<and>
   py_trunc (1 / (3602879701896397 / 2 ^ 55)) = 9"
proof -
  define x :: real where "x = 1 / (3602879701896397 / 2 ^ 55)"
  have x: "0 < x" "2 powr of_int 3 \<le> x" "x < 2 powr (of_int 3 + 1)" by (simp_all add: x_def)
  have "round_even (x / 2 powr (of_int 3 - 52)) = 5629499534213120"
    by (simp add: x_def round_even_def Let_def powr_minus_divide)
  with rounded_eval [OF x] have "rounded x = 10" by (simp add: powr_minus_divide)
  then have "round64 x = Fin 10" by (simp add: round64_def)
  then show ?thesis
    by (simp add: rps_def to_float_def round64_1 x_def py_trunc_def)
qed

lemma round64_overflow:
  assumes "2 ^ 1024 \<le> x"
  shows "round64 x = PInf"
proof -
  have x: "0 < x" using assms by (rule less_le_trans [rotated]) simp
  have "2 powr (- 1022) \<le> (1::real)" by (rule two_powr_neg_le_1) simp
  moreover have "(1::real) \<le> 2 ^ 1024" by simp
  ultimately have n: "2 powr (- 1022) \<le> x" using assms by linarith
  have "2 powr 1024 \<le> x" using assms by simp
  then have "1024 \<le> log 2 x" using x le_log_iff [of 2 x 1024] by simp
  then have "1024 \<le> \<lfloor>log 2 x\<rfloor>" by (simp add: le_floor_iff)
  then have "(1024::real) \<le> of_int \<lfloor>log 2 x\<rfloor>" by linarith
  then have "(2::real) powr 1024 \<le> 2 powr of_int \<lfloor>log 2 x\<rfloor>" by (intro powr_mono) simp_all
  with rounded_lower [OF x n] have "2 ^ 1024 \<le> rounded x" by simp
  then show ?thesis by (simp add: round64_def)
qed

text \<open>
  Beyond the range of the floats: an \<^verbatim>\<open>int\<close> from \<open>2 ^ 1024\<close> on is not converted, and
  a quotient from \<open>2 ^ 1024\<close> on is the infinity, which \<^verbatim>\<open>int\<close> refuses.
\<close>

lemma rps_out_of_range:
  "rps (2 ^ 1024) 1 1 = Inl (OverflowError ''int too large to convert to float'') \<and>
   rps 1 1 (1 / 2 ^ 1024) = Inr PInf \<and>
   float_to_int PInf = Inl (OverflowError ''cannot convert float infinity to integer'')"
proof -
  have "round64 (2 ^ 1024) = PInf" by (rule round64_overflow) simp
  then have a: "to_float (2 ^ 1024) = Inl (OverflowError ''int too large to convert to float'')"
    by (simp add: to_float_def)
  have "round64 (1 / (1 / 2 ^ 1024)) = PInf" by (rule round64_overflow) simp
  then have "rps 1 1 (1 / 2 ^ 1024) = Inr PInf"
    by (simp add: rps_def to_float_def round64_1)
  with a show ?thesis by (simp add: rps_def)
qed

section \<open>Properties of the parser and the runner\<close>

lemma parse_loop_Inr:
  "parse_loop parts vals = Inr r \<longleftrightarrow>
     (\<forall>w \<in> set (filter (\<lambda>w. w \<noteq> []) (map strip parts)). \<exists>v. py_int w = Some v \<and> 0 < v) \<and>
     r = vals @ map (the \<circ> py_int) (filter (\<lambda>w. w \<noteq> []) (map strip parts))"
  by (induction parts arbitrary: vals) (auto simp: Let_def split: option.splits)

lemma parse_loop_Inl:
  "parse_loop parts vals = Inl e \<Longrightarrow> \<exists>m. e = ValueError m"
  by (induction parts arbitrary: vals) (auto simp: Let_def split: option.splits if_splits)

lemma parse_pairs_Inr:
  "parse_pairs s = Inr vs \<longleftrightarrow>
     listed s \<noteq> [] \<and> (\<forall>w \<in> set (listed s). \<exists>v. py_int w = Some v \<and> 0 < v) \<and>
     vs = map (the \<circ> py_int) (listed s)"
proof (cases "parse_loop (split_on CHR '','' s) []")
  case (Inl e)
  then have "\<not> (\<forall>w \<in> set (listed s). \<exists>v. py_int w = Some v \<and> 0 < v)"
    using parse_loop_Inr [of "split_on CHR '','' s" "[]"] by (auto simp: listed_def)
  with Inl show ?thesis by (auto simp: parse_pairs_def)
next
  case (Inr r)
  then show ?thesis
    using parse_loop_Inr [of "split_on CHR '','' s" "[]" r]
    by (auto simp: parse_pairs_def listed_def)
qed

lemma parse_pairs_Inl:
  "parse_pairs s = Inl e \<Longrightarrow> \<exists>m. e = ValueError m"
  unfolding parse_pairs_def
  by (auto split: sum.splits if_splits dest: parse_loop_Inl)

lemma main_loop_Cons:
  "main_loop env iters k (p # ps) b = (b', None) \<Longrightarrow>
   \<exists>da ra ia dt rt it.
     run_async env k iters p = Inr da \<and> rps iters p da = Inr ra \<and> float_to_int ra = Inr ia \<and>
     run_thr env k iters p = Inr dt \<and> rps iters p dt = Inr rt \<and> float_to_int rt = Inr it \<and>
     main_loop env iters (Suc k) ps (round_done iters p da ra ia dt rt it b) = (b', None)"
  by (auto simp: Let_def round_done_def split: sum.splits)

text \<open>One round of the loop: it is completed, or the loop ends in it with an exception.\<close>

lemma main_loop_round:
  "main_loop env iters k (p # ps) b = (b', res) \<Longrightarrow>
   (\<exists>da ra ia dt rt it.
     run_async env k iters p = Inr da \<and> rps iters p da = Inr ra \<and> float_to_int ra = Inr ia \<and>
     run_thr env k iters p = Inr dt \<and> rps iters p dt = Inr rt \<and> float_to_int rt = Inr it \<and>
     main_loop env iters (Suc k) ps (round_done iters p da ra ia dt rt it b) = (b', res)) \<or>
   (\<exists>e. res = Some e \<and>
      (out b' = out b @ [Call Asyncio iters p] \<or>
       (\<exists>da ra ia. run_async env k iters p = Inr da \<and> rps iters p da = Inr ra \<and>
          float_to_int ra = Inr ia \<and>
          out b' = out b @ [Call Asyncio iters p, Line Asyncio p da ia, Call Threads iters p])))"
  by (auto simp: Let_def round_done_def split: sum.splits)

lemma main_loop_calls:
  "main_loop env iters k ps b = (b', None) \<Longrightarrow>
   filter is_call (out b') = filter is_call (out b) @ concat (map (both_calls iters) ps)"
proof (induction ps arbitrary: k b)
  case Nil
  then show ?case by simp
next
  case (Cons p ps)
  from main_loop_Cons [OF Cons.prems] obtain da ra ia dt rt it where
    "main_loop env iters (Suc k) ps (round_done iters p da ra ia dt rt it b) = (b', None)" by blast
  from Cons.IH [OF this] show ?case by (simp add: round_done_def both_calls_def)
qed

lemma main_loop_keys:
  "main_loop env iters k ps b = (b', None) \<Longrightarrow>
   fst ` set (rps_async b') = fst ` set (rps_async b) \<union> set ps \<and>
   fst ` set (rps_thr b') = fst ` set (rps_thr b) \<union> set ps"
proof (induction ps arbitrary: k b)
  case Nil
  then show ?case by simp
next
  case (Cons p ps)
  from main_loop_Cons [OF Cons.prems] obtain da ra ia dt rt it where
    "main_loop env iters (Suc k) ps (round_done iters p da ra ia dt rt it b) = (b', None)" by blast
  from Cons.IH [OF this] show ?case by (auto simp: round_done_def dom_update)
qed





lemma main_loop_no_plot:
  "main_loop env iters k ps b = (b', res) \<Longrightarrow> Plot xs ys \<in> set (out b') \<Longrightarrow>
   Plot xs ys \<in> set (out b)"
proof (induction ps arbitrary: k b)
  case Nil
  then show ?case by simp
next
  case (Cons p ps)
  from main_loop_round [OF Cons.prems(1)] show ?case
  proof (elim disjE exE conjE)
    fix da ra ia dt rt it
    assume "main_loop env iters (Suc k) ps (round_done iters p da ra ia dt rt it b) = (b', res)"
    from Cons.IH [OF this Cons.prems(2)] show ?thesis by (simp add: round_done_def)
  next
    fix e assume "out b' = out b @ [Call Asyncio iters p]"
    with Cons.prems(2) show ?thesis by simp
  next
    fix e da ra ia
    assume "out b' = out b @ [Call Asyncio iters p, Line Asyncio p da ia, Call Threads iters p]"
    with Cons.prems(2) show ?thesis by simp
  qed
qed






lemma common_keys_set: "set (common_keys a t) = fst ` set a \<inter> fst ` set t"
  by (auto simp: common_keys_def)

lemma common_keys_sorted: "sorted (common_keys a t) \<and> distinct (common_keys a t)"
  by (simp add: common_keys_def)

lemma main_success:
  "main env iters s plot = (evs, Inr c) \<Longrightarrow> parse_pairs s = Inr ps \<Longrightarrow>
   \<exists>b. main_loop env iters 0 ps \<lparr>out = [], rps_async = [], rps_thr = []\<rparr> = (b, None) \<and>
       (evs = out b \<or> (\<exists>ys. evs = out b @ [Plot (common_keys (rps_async b) (rps_thr b)) ys, Wrote]))"
  by (auto simp: main_def Let_def split: prod.splits option.splits sum.splits if_splits)


text \<open>
  Claim C5. If a listed pair count is an integer \<open>\<le> 0\<close>, or nothing is listed at
  all, \<^verbatim>\<open>parse_pairs\<close> raises a \<^verbatim>\<open>ValueError\<close>, and \<^verbatim>\<open>main\<close> ends with that
  exception before any measured function is called and before any result line is
  printed (its event list is empty). If at least one value is listed and every
  listed value is a positive integer, no error is raised and the parsed list is
  returned.
\<close>

theorem parse_pairs_configuration_error:
  "((\<exists>w \<in> set (listed s). \<exists>v. py_int w = Some v \<and> v \<le> 0) \<or> listed s = [] \<longrightarrow>
      (\<exists>m. parse_pairs s = Inl (ValueError m) \<and>
           main env iters s plot = ([], Inl (ValueError m)))) \<and>
   (listed s \<noteq> [] \<and> (\<forall>w \<in> set (listed s). \<exists>v. py_int w = Some v \<and> 0 < v) \<longrightarrow>
      parse_pairs s = Inr (map (the \<circ> py_int) (listed s)))"
proof (intro conjI impI)
  assume bad: "(\<exists>w \<in> set (listed s). \<exists>v. py_int w = Some v \<and> v \<le> 0) \<or> listed s = []"
  have "\<forall>vs. parse_pairs s \<noteq> Inr vs"
  proof (intro allI notI)
    fix vs assume "parse_pairs s = Inr vs"
    then have "listed s \<noteq> []" and "\<forall>w \<in> set (listed s). \<exists>v. py_int w = Some v \<and> 0 < v"
      by (simp_all add: parse_pairs_Inr)
    with bad show False by fastforce
  qed
  then obtain e where e: "parse_pairs s = Inl e" by (cases "parse_pairs s") auto
  with parse_pairs_Inl obtain m where "e = ValueError m" by blast
  with e show "\<exists>m. parse_pairs s = Inl (ValueError m) \<and>
           main env iters s plot = ([], Inl (ValueError m))"
    by (simp add: main_def)
next
  assume "listed s \<noteq> [] \<and> (\<forall>w \<in> set (listed s). \<exists>v. py_int w = Some v \<and> 0 < v)"
  then show "parse_pairs s = Inr (map (the \<circ> py_int) (listed s))"
    by (simp add: parse_pairs_Inr)
qed

text \<open>
  The inputs \<^verbatim>\<open>"0"\<close> and \<^verbatim>\<open>""\<close> of the claim, and the default \<^verbatim>\<open>"1,2,4,8"\<close>.
\<close>

theorem parse_pairs_configuration_error_witness:
  "(\<exists>m. parse_pairs ''0'' = Inl (ValueError m) \<and>
        main \<lparr>run_async = (\<lambda>k i p. Inr 1), run_thr = (\<lambda>k i p. Inr 1), have_plt = True\<rparr>
          300000 ''0'' False = ([], Inl (ValueError m))) \<and>
   (\<exists>m. parse_pairs '''' = Inl (ValueError m) \<and>
        main \<lparr>run_async = (\<lambda>k i p. Inr 1), run_thr = (\<lambda>k i p. Inr 1), have_plt = True\<rparr>
          300000 '''' False = ([], Inl (ValueError m))) \<and>
   parse_pairs ''1,2,4,8'' = Inr [1, 2, 4, 8]"
proof -
  have l0: "listed ''0'' = [''0'']" and p0: "py_int ''0'' = Some 0" by code_simp+
  have l1: "listed '''' = []" by code_simp
  have l2: "listed ''1,2,4,8'' = [''1'', ''2'', ''4'', ''8'']" by code_simp
  have p2: "py_int ''1'' = Some 1" "py_int ''2'' = Some 2" "py_int ''4'' = Some 4"
    "py_int ''8'' = Some 8" by code_simp+
  show ?thesis
    using parse_pairs_configuration_error [of "''0''"]
      parse_pairs_configuration_error [of "''''"]
      parse_pairs_configuration_error [of "''1,2,4,8''"]
    by (simp add: l0 p0 l1 l2 p2)
qed

text \<open>
  Claim C8 says that the parsed list holds every value at most once. The parser has
  no such step: \<^verbatim>\<open>"2,2"\<close> is parsed to \<^verbatim>\<open>[2, 2]\<close>.
\<close>

theorem parse_pairs_duplicates_counterexample:
  "parse_pairs ''2,2'' = Inr [2, 2] \<and> \<not> distinct [2, 2 :: int]"
  by code_simp

text \<open>
  Claim C8, as the code has it. The parsed list is the list of the listed values in
  input order, repeated values included; a run of \<^verbatim>\<open>main\<close> that ends normally has
  called both measured functions once per entry of that list, in that order, so a
  pair count listed twice is measured twice. Only the keys handed to the plot are
  sorted and free of repetitions.
\<close>

theorem parse_pairs_keeps_every_listed_value:
  "parse_pairs s = Inr vs \<Longrightarrow>
     vs = map (the \<circ> py_int) (listed s) \<and>
     (\<forall>evs. main env iters s plot = (evs, Inr 0) \<longrightarrow>
        filter is_call evs = concat (map (both_calls iters) vs) \<and>
        (\<forall>xs ys. Plot xs ys \<in> set evs \<longrightarrow> sorted xs \<and> distinct xs \<and> set xs = set vs))"
proof (intro conjI allI impI)
  assume p: "parse_pairs s = Inr vs"
  then show "vs = map (the \<circ> py_int) (listed s)" by (simp add: parse_pairs_Inr)
  fix evs assume m: "main env iters s plot = (evs, Inr 0)"
  from main_success [OF m p] obtain b where
    b: "main_loop env iters 0 vs \<lparr>out = [], rps_async = [], rps_thr = []\<rparr> = (b, None)"
    and evs: "evs = out b \<or> (\<exists>ys. evs = out b @ [Plot (common_keys (rps_async b) (rps_thr b)) ys, Wrote])"
    by blast
  from main_loop_calls [OF b] evs
  show "filter is_call evs = concat (map (both_calls iters) vs)" by auto
  have noplot: "Plot xs ys \<notin> set (out b)" for xs ys
    using main_loop_no_plot [OF b, of xs ys] by auto
  fix xs ys assume "Plot xs ys \<in> set evs"
  with evs noplot have xs: "xs = common_keys (rps_async b) (rps_thr b)" by auto
  from main_loop_keys [OF b] have "set xs = set vs"
    by (simp add: xs common_keys_set)
  with common_keys_sorted xs show "sorted xs" "distinct xs" "set xs = set vs" by simp_all
qed

text \<open>
  For \<^verbatim>\<open>"2,2"\<close> there are four calls and one plotted key.
\<close>

theorem parse_pairs_keeps_every_listed_value_witness:
  "[2, 2] = map (the \<circ> py_int) (listed ''2,2'') \<and>
   main \<lparr>run_async = (\<lambda>k i p. Inr 1), run_thr = (\<lambda>k i p. Inr 1), have_plt = True\<rparr>
     5 ''2,2'' True =
     ([Call Asyncio 5 2, Line Asyncio 2 1 10, Call Threads 5 2, Line Threads 2 1 10,
       Call Asyncio 5 2, Line Asyncio 2 1 10, Call Threads 5 2, Line Threads 2 1 10,
       Plot [2] [Fin 1], Wrote], Inr 0) \<and>
   filter is_call
     [Call Asyncio 5 2, Line Asyncio 2 1 10, Call Threads 5 2, Line Threads 2 1 10,
      Call Asyncio 5 2, Line Asyncio 2 1 10, Call Threads 5 2, Line Threads 2 1 10,
      Plot [2] [Fin 1], Wrote] =
     [Call Asyncio 5 2, Call Threads 5 2, Call Asyncio 5 2, Call Threads 5 2] \<and>
   sorted [2 :: int] \<and> distinct [2 :: int] \<and> set [2 :: int] = set [2, 2]"
proof -
  have p: "parse_pairs ''2,2'' = Inr [2, 2]"
    by code_simp
  have m: "main \<lparr>run_async = (\<lambda>k i p. Inr 1), run_thr = (\<lambda>k i p. Inr 1), have_plt = True\<rparr>
     5 ''2,2'' True =
     ([Call Asyncio 5 2, Line Asyncio 2 1 10, Call Threads 5 2, Line Threads 2 1 10,
       Call Asyncio 5 2, Line Asyncio 2 1 10, Call Threads 5 2, Line Threads 2 1 10,
       Plot [2] [Fin 1], Wrote], Inr 0)"
    by (simp add: main_def p Let_def rps_def to_float_def round64_numeral round64_1 py_trunc_def
        common_keys_def)
  note t = parse_pairs_keeps_every_listed_value [OF p,
      of "\<lparr>run_async = (\<lambda>k i p. Inr 1), run_thr = (\<lambda>k i p. Inr 1), have_plt = True\<rparr>" 5 True]
  from t have v: "[2, 2] = map (the \<circ> py_int) (listed ''2,2'')"
    by (rule conjunct1)
  from t [THEN conjunct2, rule_format, OF m]
  have c: "filter is_call
     [Call Asyncio 5 2, Line Asyncio 2 1 10, Call Threads 5 2, Line Threads 2 1 10,
      Call Asyncio 5 2, Line Asyncio 2 1 10, Call Threads 5 2, Line Threads 2 1 10,
      Plot [2] [Fin 1], Wrote] = concat (map (both_calls 5) [2, 2])"
    and x: "sorted [2 :: int] \<and> distinct [2 :: int] \<and> set [2 :: int] = set [2, 2]"
    by simp_all
  from v m c x show ?thesis
    by (simp add: both_calls_def)
qed

lemma parse_1_2: "parse_pairs ''1,2'' = Inr [1, 2]"
  by code_simp

lemma parse_1: "parse_pairs ''1'' = Inr [1]"
  by code_simp

text \<open>
  Claim C6 asks that a failed measurement leaves the other variant's measurement for
  the same pair count attempted and reported, with the failed one recorded as an
  invalid marker. \<^verbatim>\<open>main\<close> catches nothing. When the thread measurement of the first
  pair count raises, the process ends with that exception: no marker is recorded for
  it and the pair count 2 is never measured. When the asyncio measurement raises, the
  thread measurement of the same pair count is not attempted.
\<close>

theorem main_propagates_failed_measurement:
  "main \<lparr>run_async = (\<lambda>k i p. Inr 1),
         run_thr = (\<lambda>k i p. Inl (RuntimeError ''thread start failed'')),
         have_plt = True\<rparr> 1 ''1,2'' False
     = ([Call Asyncio 1 1, Line Asyncio 1 1 1, Call Threads 1 1],
        Inl (RuntimeError ''thread start failed'')) \<and>
   main \<lparr>run_async = (\<lambda>k i p. Inl (RuntimeError ''event loop failed'')),
         run_thr = (\<lambda>k i p. Inr 1),
         have_plt = True\<rparr> 1 ''1,2'' False
     = ([Call Asyncio 1 1], Inl (RuntimeError ''event loop failed''))"
  by (simp add: main_def parse_1_2 Let_def rps_def to_float_def round64_1 py_trunc_def)


text \<open>
  A pair count listed twice: the dictionaries keep the throughputs of its last round.
  Here the threads take 4 seconds in round 2 and one second before, asyncio always
  one second; the ratio plotted for the pair count 2 is that of round 2.
\<close>

lemma main_repeated_pair_count:
  "main \<lparr>run_async = (\<lambda>k i p. Inr 1), run_thr = (\<lambda>k i p. Inr (if k = 2 then 4 else 1)),
         have_plt = True\<rparr> 4 ''2,1,2'' True =
     ([Call Asyncio 4 2, Line Asyncio 2 1 8, Call Threads 4 2, Line Threads 2 1 8,
       Call Asyncio 4 1, Line Asyncio 1 1 4, Call Threads 4 1, Line Threads 1 1 4,
       Call Asyncio 4 2, Line Asyncio 2 1 8, Call Threads 4 2, Line Threads 2 4 2,
       Plot [1, 2] [Fin 1, Fin 4], Wrote], Inr 0)"
proof -
  have p: "parse_pairs ''2,1,2'' = Inr [2, 1, 2]" by code_simp
  show ?thesis
    by (simp add: main_def p Let_def rps_def to_float_def round64_numeral round64_1 py_trunc_def
        common_keys_def)
qed


section \<open>Properties of the two measured functions\<close>

subsection \<open>Queues and the steps of one pair\<close>

lemma upto_single: "[g..g] = [g::int]"
  by (simp add: upto_rec1)

lemma upto_snoc: "0 \<le> g \<Longrightarrow> [0..g - 1] @ [g] = [0..g]"
  by (simp add: upto_rec2)

lemma chan_put:
  "chan_is q g u \<Longrightarrow> put u q = Some q' \<Longrightarrow> u = g \<and> chan_is q' g (u + 1)"
  by (auto simp: chan_is_def put_def maxsize_def upto_rec2 split: if_splits)

lemma chan_get:
  assumes "chan_is q g u" and "get q = Some (x, q')"
  shows "x = g \<and> u = g + 1 \<and> chan_is q' (g + 1) u"
proof -
  from assms have ne: "q_items q \<noteq> []"
    by (auto simp: get_def split: list.splits)
  with assms(1) have u: "u = g + 1"
    by (cases "u = g") (auto simp: chan_is_def)
  with assms(1) have items: "q_items q = [g]" and g: "0 \<le> g"
    and logs: "put_log q = [0..g]" "get_log q = [0..g - 1]"
    by (simp_all add: chan_is_def upto_single)
  from assms(2) items have x: "x = g" and q': "q' = q\<lparr>q_items := [], get_log := get_log q @ [g]\<rparr>"
    by (auto simp: get_def)
  from q' logs g u have "chan_is q' (g + 1) u"
    by (simp add: chan_is_def upto_snoc)
  with x u show ?thesis by simp
qed

lemma chan_put_enabled: "chan_is q g g \<Longrightarrow> \<exists>q'. put x q = Some q'"
  by (simp add: chan_is_def put_def maxsize_def)

lemma chan_get_enabled: "chan_is q g (g + 1) \<Longrightarrow> \<exists>x q'. get q = Some (x, q')"
  by (simp add: chan_is_def get_def upto_single)

lemma pinger_loop_counts:
  assumes "0 \<le> i" and "i < iters"
  shows "pi_puts iters (pinger_loop iters (i + 1)) = i + 1"
    and "pi_gets iters (pinger_loop iters (i + 1)) = i + 1"
    and "pinger_ok iters (pinger_loop iters (i + 1))"
proof -
  have "i + 1 < iters \<or> iters = i + 1" using assms by linarith
  then show "pi_puts iters (pinger_loop iters (i + 1)) = i + 1"
    and "pi_gets iters (pinger_loop iters (i + 1)) = i + 1"
    and "pinger_ok iters (pinger_loop iters (i + 1))"
    using assms by (auto simp: pinger_loop_def)
qed

lemma ponger_loop_counts:
  assumes "0 \<le> j" and "j < iters"
  shows "po_puts iters (ponger_loop iters (j + 1)) = j + 1"
    and "po_gets iters (ponger_loop iters (j + 1)) = j + 1"
    and "ponger_ok iters (ponger_loop iters (j + 1))"
proof -
  have "j + 1 < iters \<or> iters = j + 1" using assms by linarith
  then show "po_puts iters (ponger_loop iters (j + 1)) = j + 1"
    and "po_gets iters (ponger_loop iters (j + 1)) = j + 1"
    and "ponger_ok iters (ponger_loop iters (j + 1))"
    using assms by (auto simp: ponger_loop_def)
qed

lemma pinger_step_inv:
  assumes "pair_inv iters p" and "pinger_step iters p = Some p'"
  shows "pair_inv iters p'"
proof (cases "pinger p")
  case (PiPut i)
  with assms(2) obtain q where q: "put i (q1 p) = Some q" and p': "p' = p\<lparr>q1 := q, pinger := PiGet i\<rparr>"
    by (auto simp: pinger_step_def split: option.splits)
  from assms(1) PiPut have c: "chan_is (q1 p) (po_gets iters (ponger p)) i"
    by (simp add: pair_inv_def)
  from chan_put [OF c q] assms(1) PiPut p' show ?thesis
    by (auto simp: pair_inv_def)
next
  case (PiGet i)
  with assms(2) obtain x q where q: "get (q2 p) = Some (x, q)"
    and p': "p' = p\<lparr>q2 := q, pinger := pinger_loop iters (i + 1)\<rparr>"
    by (auto simp: pinger_step_def split: option.splits)
  from assms(1) PiGet have c: "chan_is (q2 p) i (po_puts iters (ponger p))"
    by (simp add: pair_inv_def)
  from assms(1) PiGet have i: "0 \<le> i" "i < iters"
    by (simp_all add: pair_inv_def)
  from chan_get [OF c q] assms(1) PiGet p' show ?thesis
    by (auto simp: pair_inv_def pinger_loop_counts [OF i])
qed (use assms(2) in \<open>simp_all add: pinger_step_def\<close>)

lemma ponger_step_inv:
  assumes "pair_inv iters p" and "ponger_step iters p = Some p'"
  shows "pair_inv iters p'"
proof (cases "ponger p")
  case (PoGet j)
  with assms(2) obtain v q where q: "get (q1 p) = Some (v, q)"
    and p': "p' = p\<lparr>q1 := q, ponger := PoPut j v\<rparr>"
    by (auto simp: ponger_step_def split: option.splits)
  from assms(1) PoGet have c: "chan_is (q1 p) j (pi_puts iters (pinger p))"
    by (simp add: pair_inv_def)
  from chan_get [OF c q] assms(1) PoGet p' show ?thesis
    by (auto simp: pair_inv_def)
next
  case (PoPut j v)
  with assms(2) obtain q where q: "put v (q2 p) = Some q"
    and p': "p' = p\<lparr>q2 := q, ponger := ponger_loop iters (j + 1)\<rparr>"
    by (auto simp: ponger_step_def split: option.splits)
  from assms(1) PoPut have v: "v = j" and c: "chan_is (q2 p) (pi_gets iters (pinger p)) v"
    by (simp_all add: pair_inv_def)
  from assms(1) PoPut have j: "0 \<le> j" "j < iters"
    by (simp_all add: pair_inv_def)
  from assms(1) PoPut have c1: "chan_is (q1 p) (j + 1) (pi_puts iters (pinger p))"
    and ok: "pinger_ok iters (pinger p)"
    by (simp_all add: pair_inv_def)
  from chan_put [OF c q] have "chan_is q (pi_gets iters (pinger p)) (v + 1)"
    by (rule conjunct2)
  then have c2: "chan_is q (pi_gets iters (pinger p)) (j + 1)"
    unfolding v .
  from p' c1 c2 ok show ?thesis
    by (simp add: pair_inv_def ponger_loop_counts [OF j])
qed (use assms(2) in \<open>simp_all add: ponger_step_def\<close>)

lemma pinger_step_left:
  assumes "pair_inv iters p" and "pinger_step iters p = Some p'"
  shows "Suc (pair_left iters p') = pair_left iters p"
proof (cases "pinger p")
  case (PiPut i)
  with assms(2) have p': "pinger p' = PiGet i" "ponger p' = ponger p"
    by (auto simp: pinger_step_def split: option.splits)
  from assms(1) PiPut have "0 \<le> i" "i < iters" by (simp_all add: pair_inv_def)
  with p' PiPut show ?thesis by (simp add: pair_left_def)
next
  case (PiGet i)
  with assms(2) have p': "pinger p' = pinger_loop iters (i + 1)" "ponger p' = ponger p"
    by (auto simp: pinger_step_def split: option.splits)
  from assms(1) PiGet have "0 \<le> i" "i < iters" by (simp_all add: pair_inv_def)
  with p' PiGet show ?thesis by (auto simp: pair_left_def pinger_loop_def)
qed (use assms(2) in \<open>simp_all add: pinger_step_def\<close>)

lemma ponger_step_left:
  assumes "pair_inv iters p" and "ponger_step iters p = Some p'"
  shows "Suc (pair_left iters p') = pair_left iters p"
proof (cases "ponger p")
  case (PoGet j)
  with assms(2) obtain v where p': "ponger p' = PoPut j v" "pinger p' = pinger p"
    by (auto simp: ponger_step_def split: option.splits)
  from assms(1) PoGet have "0 \<le> j" "j < iters" by (simp_all add: pair_inv_def)
  with p' PoGet show ?thesis by (simp add: pair_left_def)
next
  case (PoPut j v)
  with assms(2) have p': "ponger p' = ponger_loop iters (j + 1)" "pinger p' = pinger p"
    by (auto simp: ponger_step_def split: option.splits)
  from assms(1) PoPut have "0 \<le> j" "j < iters" by (simp_all add: pair_inv_def)
  with p' PoPut show ?thesis by (auto simp: pair_left_def ponger_loop_def)
qed (use assms(2) in \<open>simp_all add: ponger_step_def\<close>)

lemma chan_bounds: "chan_is q g u \<Longrightarrow> g \<le> u \<and> u \<le> g + 1"
  by (simp add: chan_is_def)

lemma pinger_put_enabled:
  assumes "pinger p = PiPut i" and "chan_is (q1 p) i i"
  shows "\<exists>p'. pinger_step iters p = Some p'"
proof -
  from chan_put_enabled [OF assms(2)] obtain q' where "put i (q1 p) = Some q'" by blast
  with assms(1) show ?thesis by (simp add: pinger_step_def)
qed

lemma pinger_get_enabled:
  assumes "pinger p = PiGet i" and "chan_is (q2 p) i (i + 1)"
  shows "\<exists>p'. pinger_step iters p = Some p'"
proof -
  from chan_get_enabled [OF assms(2)] obtain x q' where "get (q2 p) = Some (x, q')" by blast
  with assms(1) show ?thesis by (simp add: pinger_step_def)
qed

lemma ponger_get_enabled:
  assumes "ponger p = PoGet j" and "chan_is (q1 p) j (j + 1)"
  shows "\<exists>p'. ponger_step iters p = Some p'"
proof -
  from chan_get_enabled [OF assms(2)] obtain x q' where "get (q1 p) = Some (x, q')" by blast
  with assms(1) show ?thesis by (simp add: ponger_step_def)
qed

lemma ponger_put_enabled:
  assumes "ponger p = PoPut j v" and "chan_is (q2 p) j j"
  shows "\<exists>p'. ponger_step iters p = Some p'"
proof -
  from chan_put_enabled [OF assms(2)] obtain q' where "put v (q2 p) = Some q'" by blast
  with assms(1) show ?thesis by (simp add: ponger_step_def)
qed

lemma pair_progress:
  assumes inv: "pair_inv iters p"
    and pi: "pi_passed (pinger p)" and po: "po_passed (ponger p)"
    and nd: "\<not> pair_done p"
  shows "(\<exists>p'. pinger_step iters p = Some p') \<or> (\<exists>p'. ponger_step iters p = Some p')"
proof -
  from inv have c1: "chan_is (q1 p) (po_gets iters (ponger p)) (pi_puts iters (pinger p))"
    and c2: "chan_is (q2 p) (pi_gets iters (pinger p)) (po_puts iters (ponger p))"
    and ok: "pinger_ok iters (pinger p)" "ponger_ok iters (ponger p)"
    by (simp_all add: pair_inv_def)
  note b1 = chan_bounds [OF c1] and b2 = chan_bounds [OF c2]
  show ?thesis
  proof (cases "pinger p")
    case (PiPut i)
    with b1 b2 ok po have "po_gets iters (ponger p) = i"
      by (cases "ponger p") auto
    with c1 PiPut have "chan_is (q1 p) i i" by simp
    from pinger_put_enabled [OF PiPut this] show ?thesis by blast
  next
    case (PiGet i)
    show ?thesis
    proof (cases "ponger p")
      case (PoGet j)
      with PiGet b1 b2 have "j = i \<or> j = i + 1" by auto
      then show ?thesis
      proof
        assume "j = i"
        with c1 PiGet PoGet have "chan_is (q1 p) j (j + 1)" by simp
        from ponger_get_enabled [OF PoGet this] show ?thesis by blast
      next
        assume "j = i + 1"
        with c2 PiGet PoGet have "chan_is (q2 p) i (i + 1)" by simp
        from pinger_get_enabled [OF PiGet this] show ?thesis by blast
      qed
    next
      case (PoPut j v)
      with PiGet b1 b2 have "j = i" by auto
      with c2 PiGet PoPut have "chan_is (q2 p) j j" by simp
      from ponger_put_enabled [OF PoPut this] show ?thesis by blast
    next
      case PoDone
      with PiGet b1 b2 ok have "max 0 iters = i + 1" by auto
      with c2 PiGet PoDone have "chan_is (q2 p) i (i + 1)" by simp
      from pinger_get_enabled [OF PiGet this] show ?thesis by blast
    qed (use po in simp_all)
  next
    case PiDone
    with b1 b2 ok po nd show ?thesis
      by (cases "ponger p") (auto simp: pair_done_def)
  qed (use pi in simp_all)
qed

subsection \<open>Schedules\<close>

lemma exec_append:
  "exec step (as @ bs) s = (case exec step as s of None \<Rightarrow> None | Some s' \<Rightarrow> exec step bs s')"
  by (induction as arbitrary: s) (auto split: option.splits)

lemma exec_invariant:
  assumes "\<And>a s s'. I s \<Longrightarrow> step a s = Some s' \<Longrightarrow> I s'"
  shows "I s \<Longrightarrow> exec step as s = Some s' \<Longrightarrow> I s'"
proof (induction as arbitrary: s)
  case Nil
  then show ?case by simp
next
  case (Cons a as)
  from Cons.prems(2) obtain s1 where s1: "step a s = Some s1" "exec step as s1 = Some s'"
    by (auto split: option.splits)
  from assms [OF Cons.prems(1) s1(1)] Cons.IH s1(2) show ?case by blast
qed

lemma exec_measure:
  assumes "\<And>a s s'. I s \<Longrightarrow> step a s = Some s' \<Longrightarrow> I s' \<and> Suc (m s') = m s"
  shows "I s \<Longrightarrow> exec step as s = Some s' \<Longrightarrow> length as + m s' = m s"
proof (induction as arbitrary: s)
  case Nil
  then show ?case by simp
next
  case (Cons a as)
  from Cons.prems(2) obtain s1 where s1: "step a s = Some s1" "exec step as s1 = Some s'"
    by (auto split: option.splits)
  from assms [OF Cons.prems(1) s1(1)] have "I s1" "Suc (m s1) = m s" by simp_all
  with Cons.IH [OF \<open>I s1\<close> s1(2)] show ?case by simp
qed

lemma exec_complete:
  assumes step: "\<And>a s s'. I s \<Longrightarrow> step a s = Some s' \<Longrightarrow> I s' \<and> Suc (m s') = m s"
    and progress: "\<And>s. I s \<Longrightarrow> \<not> final s \<Longrightarrow> \<exists>a s'. step a s = Some s'"
  shows "I s \<Longrightarrow> \<exists>as s'. exec step as s = Some s' \<and> final s' \<and> I s'"
proof (induction "m s" arbitrary: s rule: less_induct)
  case less
  show ?case
  proof (cases "final s")
    case True
    with less.prems have "exec step [] s = Some s \<and> final s \<and> I s" by simp
    then show ?thesis by blast
  next
    case False
    from progress [OF less.prems False] obtain a s1 where s1: "step a s = Some s1" by blast
    from step [OF less.prems s1] have "I s1" "m s1 < m s" by auto
    from less.hyps [OF this(2) this(1)] obtain as s' where
      "exec step as s1 = Some s'" "final s'" "I s'" by blast
    with s1 have "exec step (a # as) s = Some s' \<and> final s' \<and> I s'" by simp
    then show ?thesis by blast
  qed
qed

subsection \<open>Sums over the list of pairs\<close>

lemma sum_list_map_update:
  "k < length xs \<Longrightarrow>
   sum_list (map f (xs[k := y])) + f (xs ! k) = sum_list (map f xs) + (f y :: nat)"
proof (induction xs arbitrary: k)
  case Nil
  then show ?case by simp
next
  case (Cons x xs)
  then show ?case by (cases k) auto
qed

lemma sum_list_map_replicate: "sum_list (map f (replicate n x)) = n * (f x :: nat)"
  by (induction n) auto

lemma sum_list_zero: "(\<forall>x\<in>set xs. f x = (0::nat)) \<Longrightarrow> sum_list (map f xs) = 0"
  by (induction xs) auto

subsection \<open>Steps of a worker, seen from outside\<close>

lemma pinger_step_frame:
  assumes "pinger_step iters p = Some p'"
  shows "ponger p' = ponger p" and "pi_passed (pinger p')" and "pi_passed (pinger p)"
    and "pinger p \<noteq> PiDone"
  using assms
  by (auto simp: pinger_step_def pinger_loop_def split: pinger_pc.splits option.splits)

lemma ponger_step_frame:
  assumes "ponger_step iters p = Some p'"
  shows "pinger p' = pinger p" and "po_passed (ponger p')" and "po_passed (ponger p)"
    and "ponger p \<noteq> PoDone"
  using assms
  by (auto simp: ponger_step_def ponger_loop_def split: ponger_pc.splits option.splits)

lemma chan_is_new: "chan_is new_queue 0 0"
  by (simp add: chan_is_def new_queue_def)

lemma pinger_loop_0:
  "pi_puts iters (pinger_loop iters 0) = 0" "pi_gets iters (pinger_loop iters 0) = 0"
  "pinger_ok iters (pinger_loop iters 0)" "pi_passed (pinger_loop iters 0)"
  "pi_left iters (pinger_loop iters 0) = 2 * nat iters"
  by (auto simp: pinger_loop_def)

lemma ponger_loop_0:
  "po_puts iters (ponger_loop iters 0) = 0" "po_gets iters (ponger_loop iters 0) = 0"
  "ponger_ok iters (ponger_loop iters 0)" "po_passed (ponger_loop iters 0)"
  "po_left iters (ponger_loop iters 0) = 2 * nat iters"
  by (auto simp: ponger_loop_def)

lemma one_pair_inv:
  "pair_inv iters (one_pair iters)" "pi_passed (pinger (one_pair iters))"
  "po_passed (ponger (one_pair iters))" "pair_left iters (one_pair iters) = 4 * nat iters"
  by (simp_all add: pair_inv_def one_pair_def pinger_loop_0 ponger_loop_0 chan_is_new pair_left_def)

lemma pair_done_left: "pair_done p \<Longrightarrow> pair_left iters p = 0"
  by (simp add: pair_done_def pair_left_def)

subsection \<open>\<^verbatim>\<open>pingpong_asyncio\<close>: invariant, measure, progress\<close>

lemma ainv_init: "ainv now iters pairs pingpong_asyncio_init"
  by (simp add: ainv_def a_driver_ok_def a_clock_ok_def pingpong_asyncio_init_def)

lemma asyncio_driver_inv:
  assumes inv: "ainv now iters pairs s"
    and step: "asyncio_driver now iters pairs s = Some s1"
  shows "ainv now iters pairs (s1\<lparr>a_ticks := Suc (a_ticks s)\<rparr>) \<and>
         Suc (a_left iters pairs (s1\<lparr>a_ticks := Suc (a_ticks s)\<rparr>)) = a_left iters pairs s"
proof (cases "a_driver s")
  case ANow0
  with step have s1: "s1 = s\<lparr>a_t0 := Some (now (a_ticks s)), a_driver := AGather\<rparr>"
    by (simp add: asyncio_driver_def)
  have "\<exists>\<tau>\<le>Suc (a_ticks s). now (a_ticks s) = now \<tau>"
    by (rule exI [of _ "a_ticks s"]) simp
  with inv ANow0 show ?thesis
    unfolding s1 by (simp add: ainv_def a_driver_ok_def a_clock_ok_def a_left_def)
next
  case AGather
  with step have s1: "s1 = s\<lparr>a_pairs := replicate (nat pairs) (one_pair iters), a_driver := AAwait\<rparr>"
    by (simp add: asyncio_driver_def)
  from inv AGather have "\<exists>\<tau>\<le>a_ticks s. a_t0 s = Some (now \<tau>)"
    by (simp add: ainv_def a_clock_ok_def)
  then have "\<exists>\<tau>\<le>Suc (a_ticks s). a_t0 s = Some (now \<tau>)"
    using le_Suc_eq by blast
  with AGather show ?thesis
    unfolding s1
    by (simp add: ainv_def a_driver_ok_def a_clock_ok_def a_left_def one_pair_inv
        sum_list_map_replicate del: map_replicate)
next
  case AAwait
  with step have d: "list_all pair_done (a_pairs s)" and s1: "s1 = s\<lparr>a_driver := ANow1\<rparr>"
    by (simp_all add: asyncio_driver_def split: if_splits)
  from d have "sum_list (map (pair_left iters) (a_pairs s)) = 0"
    by (intro sum_list_zero) (simp add: list_all_iff pair_done_left)
  moreover from inv AAwait have "\<exists>\<tau>\<le>a_ticks s. a_t0 s = Some (now \<tau>)"
    by (simp add: ainv_def a_clock_ok_def)
  then have "\<exists>\<tau>\<le>Suc (a_ticks s). a_t0 s = Some (now \<tau>)"
    using le_Suc_eq by blast
  ultimately show ?thesis
    using inv AAwait d unfolding s1
    by (simp add: ainv_def a_driver_ok_def a_clock_ok_def a_left_def)
next
  case ANow1
  from inv ANow1 obtain \<tau> where \<tau>: "\<tau> \<le> a_ticks s" "a_t0 s = Some (now \<tau>)"
    by (auto simp: ainv_def a_clock_ok_def)
  with step ANow1 have s1: "s1 = s\<lparr>a_result := Some (now (a_ticks s) - now \<tau>), a_driver := AReturn\<rparr>"
    by (simp add: asyncio_driver_def)
  from \<tau>(1) have "\<exists>\<tau>0 \<tau>1. \<tau>0 \<le> \<tau>1 \<and> Some (now (a_ticks s) - now \<tau>) = Some (now \<tau>1 - now \<tau>0)"
    by blast
  with inv ANow1 show ?thesis
    unfolding s1 by (simp add: ainv_def a_driver_ok_def a_clock_ok_def a_left_def)
next
  case AReturn
  with step show ?thesis by (simp add: asyncio_driver_def)
qed

lemma a_clock_ok_tick:
  "a_clock_ok now s \<Longrightarrow> a_clock_ok now (s\<lparr>a_pairs := ps, a_ticks := Suc (a_ticks s)\<rparr>)"
  by (cases "a_driver s") (auto simp: a_clock_ok_def le_Suc_eq)

lemma asyncio_worker_inv:
  assumes inv: "ainv now iters pairs s"
    and step: "asyncio_worker f k s = Some s1"
    and f: "\<And>p p'. pair_inv iters p \<Longrightarrow> pi_passed (pinger p) \<Longrightarrow> po_passed (ponger p) \<Longrightarrow>
       f p = Some p' \<Longrightarrow>
       pair_inv iters p' \<and> Suc (pair_left iters p') = pair_left iters p \<and>
       pi_passed (pinger p') \<and> po_passed (ponger p') \<and> \<not> pair_done p"
  shows "ainv now iters pairs (s1\<lparr>a_ticks := Suc (a_ticks s)\<rparr>) \<and>
         Suc (a_left iters pairs (s1\<lparr>a_ticks := Suc (a_ticks s)\<rparr>)) = a_left iters pairs s"
proof -
  let ?ps = "a_pairs s"
  from step obtain p' where k: "k < length ?ps" and fp: "f (?ps ! k) = Some p'"
    and s1: "s1 = s\<lparr>a_pairs := ?ps[k := p']\<rparr>"
    by (auto simp: asyncio_worker_def split: if_splits option.splits)
  from inv k have pk: "pair_inv iters (?ps ! k)" "pi_passed (pinger (?ps ! k))"
    "po_passed (ponger (?ps ! k))" by (simp_all add: ainv_def)
  note fk = f [OF pk fp]
  from fk k have nd: "\<not> list_all pair_done ?ps"
    by (auto simp: list_all_length)
  with inv k have drv: "a_driver s = AAwait"
    by (cases "a_driver s") (auto simp: ainv_def a_driver_ok_def)
  have all: "\<forall>p\<in>set (?ps[k := p']). pair_inv iters p \<and> pi_passed (pinger p) \<and> po_passed (ponger p)"
  proof
    fix p assume "p \<in> set (?ps[k := p'])"
    then have "p = p' \<or> p \<in> set ?ps" using set_update_subset_insert by fastforce
    with fk inv show "pair_inv iters p \<and> pi_passed (pinger p) \<and> po_passed (ponger p)"
      by (auto simp: ainv_def)
  qed
  from sum_list_map_update [OF k, of "pair_left iters" p'] fk
  have "Suc (sum_list (map (pair_left iters) (?ps[k := p']))) = sum_list (map (pair_left iters) ?ps)"
    by simp
  moreover from inv have "a_clock_ok now s" by (simp add: ainv_def)
  from a_clock_ok_tick [OF this] have "a_clock_ok now (s\<lparr>a_pairs := ?ps[k := p'], a_ticks := Suc (a_ticks s)\<rparr>)" .
  ultimately show ?thesis
    using all inv drv unfolding s1
    by (simp add: ainv_def a_driver_ok_def a_left_def)
qed

lemma asyncio_step_inv:
  assumes "ainv now iters pairs s" and "pingpong_asyncio_step now iters pairs a s = Some s'"
  shows "ainv now iters pairs s' \<and> Suc (a_left iters pairs s') = a_left iters pairs s"
proof (cases a)
  case Driver
  with assms(2) obtain s1 where "asyncio_driver now iters pairs s = Some s1"
    and "s' = s1\<lparr>a_ticks := Suc (a_ticks s)\<rparr>"
    by (auto simp: pingpong_asyncio_step_def)
  with asyncio_driver_inv [OF assms(1)] show ?thesis by blast
next
  case (Pinger k)
  with assms(2) obtain s1 where s1: "asyncio_worker (pinger_step iters) k s = Some s1"
    and s': "s' = s1\<lparr>a_ticks := Suc (a_ticks s)\<rparr>"
    by (auto simp: pingpong_asyncio_step_def)
  have "ainv now iters pairs (s1\<lparr>a_ticks := Suc (a_ticks s)\<rparr>) \<and>
         Suc (a_left iters pairs (s1\<lparr>a_ticks := Suc (a_ticks s)\<rparr>)) = a_left iters pairs s"
  proof (rule asyncio_worker_inv [OF assms(1) s1])
    fix p p' assume p: "pair_inv iters p" "po_passed (ponger p)" "pinger_step iters p = Some p'"
    from pinger_step_frame [OF p(3)] pinger_step_inv [OF p(1,3)] pinger_step_left [OF p(1,3)] p(2)
    show "pair_inv iters p' \<and> Suc (pair_left iters p') = pair_left iters p \<and>
       pi_passed (pinger p') \<and> po_passed (ponger p') \<and> \<not> pair_done p"
      by (simp add: pair_done_def)
  qed
  with s' show ?thesis by simp
next
  case (Ponger k)
  with assms(2) obtain s1 where s1: "asyncio_worker (ponger_step iters) k s = Some s1"
    and s': "s' = s1\<lparr>a_ticks := Suc (a_ticks s)\<rparr>"
    by (auto simp: pingpong_asyncio_step_def)
  have "ainv now iters pairs (s1\<lparr>a_ticks := Suc (a_ticks s)\<rparr>) \<and>
         Suc (a_left iters pairs (s1\<lparr>a_ticks := Suc (a_ticks s)\<rparr>)) = a_left iters pairs s"
  proof (rule asyncio_worker_inv [OF assms(1) s1])
    fix p p' assume p: "pair_inv iters p" "pi_passed (pinger p)" "ponger_step iters p = Some p'"
    from ponger_step_frame [OF p(3)] ponger_step_inv [OF p(1,3)] ponger_step_left [OF p(1,3)] p(2)
    show "pair_inv iters p' \<and> Suc (pair_left iters p') = pair_left iters p \<and>
       pi_passed (pinger p') \<and> po_passed (ponger p') \<and> \<not> pair_done p"
      by (simp add: pair_done_def)
  qed
  with s' show ?thesis by simp
qed

lemma asyncio_progress:
  assumes inv: "ainv now iters pairs s" and nf: "a_driver s \<noteq> AReturn"
  shows "\<exists>a s'. pingpong_asyncio_step now iters pairs a s = Some s'"
proof (cases "\<exists>s1. asyncio_driver now iters pairs s = Some s1")
  case True
  then show ?thesis
    by (auto simp: pingpong_asyncio_step_def intro!: exI [of _ Driver])
next
  case False
  with inv nf have drv: "a_driver s = AAwait" and nd: "\<not> list_all pair_done (a_pairs s)"
    by (cases "a_driver s"; auto simp: asyncio_driver_def ainv_def a_clock_ok_def)+
  from nd obtain k where k: "k < length (a_pairs s)" "\<not> pair_done (a_pairs s ! k)"
    by (auto simp: list_all_length)
  with inv have "pair_inv iters (a_pairs s ! k)" "pi_passed (pinger (a_pairs s ! k))"
    "po_passed (ponger (a_pairs s ! k))" by (simp_all add: ainv_def)
  from pair_progress [OF this k(2)] show ?thesis
  proof
    assume "\<exists>p'. pinger_step iters (a_pairs s ! k) = Some p'"
    with k(1) have "\<exists>s'. pingpong_asyncio_step now iters pairs (Pinger k) s = Some s'"
      by (auto simp: pingpong_asyncio_step_def asyncio_worker_def)
    then show ?thesis by blast
  next
    assume "\<exists>p'. ponger_step iters (a_pairs s ! k) = Some p'"
    with k(1) have "\<exists>s'. pingpong_asyncio_step now iters pairs (Ponger k) s = Some s'"
      by (auto simp: pingpong_asyncio_step_def asyncio_worker_def)
    then show ?thesis by blast
  qed
qed

subsection \<open>The barrier\<close>

lemma arrivals_le: "arrivals ps \<le> 2 * length ps"
  by (induction ps) (auto simp: arrivals_def pair_arrivals_def)

lemma arrivals_all:
  "arrivals ps = 2 * length ps \<Longrightarrow> p \<in> set ps \<Longrightarrow> pi_arrived (pinger p) \<and> po_arrived (ponger p)"
proof (induction ps)
  case Nil
  then show ?case by simp
next
  case (Cons q ps)
  have q: "pair_arrivals q \<le> 2" by (simp add: pair_arrivals_def)
  from arrivals_le [of ps] have ps: "arrivals ps \<le> 2 * length ps" .
  from Cons.prems(1) have "pair_arrivals q + arrivals ps = 2 + 2 * length ps"
    by (simp add: arrivals_def)
  with q ps have "pair_arrivals q = 2" "arrivals ps = 2 * length ps" by linarith+
  with Cons.IH Cons.prems(2) show ?case
    by (auto simp: pair_arrivals_def split: if_splits)
qed

lemma arrivals_some:
  "arrivals ps < 2 * length ps \<Longrightarrow>
   \<exists>k<length ps. \<not> pi_arrived (pinger (ps ! k)) \<or> \<not> po_arrived (ponger (ps ! k))"
proof (induction ps)
  case Nil
  then show ?case by simp
next
  case (Cons q ps)
  show ?case
  proof (cases "pair_arrivals q = 2")
    case True
    with Cons.prems have "arrivals ps < 2 * length ps" by (simp add: arrivals_def)
    from Cons.IH [OF this] obtain k where "k < length ps"
      "\<not> pi_arrived (pinger (ps ! k)) \<or> \<not> po_arrived (ponger (ps ! k))" by blast
    then show ?thesis by (intro exI [of _ "Suc k"]) simp
  next
    case False
    then have "\<not> pi_arrived (pinger q) \<or> \<not> po_arrived (ponger q)"
      by (auto simp: pair_arrivals_def)
    then show ?thesis by (intro exI [of _ 0]) simp
  qed
qed

lemma arrivals_update:
  "k < length ps \<Longrightarrow> arrivals (ps[k := p']) + pair_arrivals (ps ! k) = arrivals ps + pair_arrivals p'"
  unfolding arrivals_def by (rule sum_list_map_update)

lemma arrive_ok:
  assumes "b_released b \<longrightarrow> b_parties b \<le> b_count b"
    and "\<not> b_released b \<longrightarrow> b_count b < b_parties b"
  shows "b_released (arrive b) \<longrightarrow> b_parties (arrive b) \<le> b_count (arrive b)"
    and "\<not> b_released (arrive b) \<longrightarrow> b_count (arrive b) < b_parties (arrive b)"
  using assms by (auto simp: arrive_def)

lemma arrive_simps:
  "b_parties (arrive b) = b_parties b" "b_count (arrive b) = b_count b + 1"
  "b_released b \<Longrightarrow> b_released (arrive b)"
  by (simp_all add: arrive_def)

subsection \<open>One step of a worker thread\<close>

lemma pair_inv_pinger_pre:
  "pair_inv iters p \<Longrightarrow> \<not> pi_passed (pinger p) \<Longrightarrow> \<not> pi_passed pc \<Longrightarrow>
   pair_inv iters (p\<lparr>pinger := pc\<rparr>)"
  by (cases "pinger p"; cases pc) (simp_all add: pair_inv_def)

lemma pair_inv_ponger_pre:
  "pair_inv iters p \<Longrightarrow> \<not> po_passed (ponger p) \<Longrightarrow> \<not> po_passed pc \<Longrightarrow>
   pair_inv iters (p\<lparr>ponger := pc\<rparr>)"
  by (cases "ponger p"; cases pc) (simp_all add: pair_inv_def)

lemma pair_inv_pinger_pass:
  "pair_inv iters p \<Longrightarrow> \<not> pi_passed (pinger p) \<Longrightarrow>
   pair_inv iters (p\<lparr>pinger := pinger_loop iters 0\<rparr>)"
  by (cases "pinger p") (simp_all add: pair_inv_def pinger_loop_0)

lemma pair_inv_ponger_pass:
  "pair_inv iters p \<Longrightarrow> \<not> po_passed (ponger p) \<Longrightarrow>
   pair_inv iters (p\<lparr>ponger := ponger_loop iters 0\<rparr>)"
  by (cases "ponger p") (simp_all add: pair_inv_def ponger_loop_0)

lemma thread_pinger_ok:
  assumes ok: "pair_ok iters (b_released b) p" and step: "thread_pinger iters b p = Some (b', p')"
  shows "worker_step_ok iters b p b' p'"
proof (cases "pinger p")
  case PiNew
  with step show ?thesis by (simp add: thread_pinger_def)
next
  case PiStarted
  with step have "b' = arrive b" "p' = p\<lparr>pinger := PiWaiting\<rparr>"
    by (simp_all add: thread_pinger_def)
  with ok PiStarted pair_inv_pinger_pre [of iters p PiWaiting] show ?thesis
    by (auto simp: worker_step_ok_def pair_ok_def pair_left_def pair_arrivals_def pair_done_def
        arrive_simps)
next
  case PiWaiting
  with step have "b' = b" "p' = p\<lparr>pinger := pinger_loop iters 0\<rparr>" "b_released b"
    by (simp_all add: thread_pinger_def split: if_splits)
  with ok PiWaiting pair_inv_pinger_pass [of iters p] show ?thesis
    by (auto simp: worker_step_ok_def pair_ok_def pair_left_def pair_arrivals_def pair_done_def
        pinger_loop_def)
next
  case (PiPut i)
  with step have b': "b' = b" and st: "pinger_step iters p = Some p'"
    by (auto simp: thread_pinger_def)
  from ok PiPut have rel: "b_released b" and inv: "pair_inv iters p" by (simp_all add: pair_ok_def)
  have arr: "pi_arrived (pinger p)" using pinger_step_frame(3) [OF st] by (cases "pinger p") simp_all
  from pinger_step_frame [OF st] pinger_step_inv [OF inv st] pinger_step_left [OF inv st] rel b' arr
  show ?thesis
    by (cases "pinger p'") (auto simp: worker_step_ok_def pair_done_def pair_arrivals_def)
next
  case (PiGet i)
  with step have b': "b' = b" and st: "pinger_step iters p = Some p'"
    by (auto simp: thread_pinger_def)
  from ok PiGet have rel: "b_released b" and inv: "pair_inv iters p" by (simp_all add: pair_ok_def)
  have arr: "pi_arrived (pinger p)" using pinger_step_frame(3) [OF st] by (cases "pinger p") simp_all
  from pinger_step_frame [OF st] pinger_step_inv [OF inv st] pinger_step_left [OF inv st] rel b' arr
  show ?thesis
    by (cases "pinger p'") (auto simp: worker_step_ok_def pair_done_def pair_arrivals_def)
next
  case PiDone
  with step show ?thesis by (simp add: thread_pinger_def pinger_step_def)
qed

lemma thread_ponger_ok:
  assumes ok: "pair_ok iters (b_released b) p" and step: "thread_ponger iters b p = Some (b', p')"
  shows "worker_step_ok iters b p b' p'"
proof (cases "ponger p")
  case PoNew
  with step show ?thesis by (simp add: thread_ponger_def)
next
  case PoStarted
  with step have "b' = arrive b" "p' = p\<lparr>ponger := PoWaiting\<rparr>"
    by (simp_all add: thread_ponger_def)
  with ok PoStarted pair_inv_ponger_pre [of iters p PoWaiting] show ?thesis
    by (auto simp: worker_step_ok_def pair_ok_def pair_left_def pair_arrivals_def pair_done_def
        arrive_simps)
next
  case PoWaiting
  with step have "b' = b" "p' = p\<lparr>ponger := ponger_loop iters 0\<rparr>" "b_released b"
    by (simp_all add: thread_ponger_def split: if_splits)
  with ok PoWaiting pair_inv_ponger_pass [of iters p] show ?thesis
    by (auto simp: worker_step_ok_def pair_ok_def pair_left_def pair_arrivals_def pair_done_def
        ponger_loop_def)
next
  case (PoGet j)
  with step have b': "b' = b" and st: "ponger_step iters p = Some p'"
    by (auto simp: thread_ponger_def)
  from ok PoGet have rel: "b_released b" and inv: "pair_inv iters p" by (simp_all add: pair_ok_def)
  have arr: "po_arrived (ponger p)" using ponger_step_frame(3) [OF st] by (cases "ponger p") simp_all
  from ponger_step_frame [OF st] ponger_step_inv [OF inv st] ponger_step_left [OF inv st] rel b' arr
  show ?thesis
    by (cases "ponger p'") (auto simp: worker_step_ok_def pair_done_def pair_arrivals_def)
next
  case (PoPut j v)
  with step have b': "b' = b" and st: "ponger_step iters p = Some p'"
    by (auto simp: thread_ponger_def)
  from ok PoPut have rel: "b_released b" and inv: "pair_inv iters p" by (simp_all add: pair_ok_def)
  have arr: "po_arrived (ponger p)" using ponger_step_frame(3) [OF st] by (cases "ponger p") simp_all
  from ponger_step_frame [OF st] ponger_step_inv [OF inv st] ponger_step_left [OF inv st] rel b' arr
  show ?thesis
    by (cases "ponger p'") (auto simp: worker_step_ok_def pair_done_def pair_arrivals_def)
next
  case PoDone
  with step show ?thesis by (simp add: thread_ponger_def ponger_step_def)
qed

subsection \<open>\<^verbatim>\<open>pingpong_threads\<close>: a worker's step keeps the invariant\<close>

lemma t_clock_ok_tick:
  "t_clock_ok now s \<Longrightarrow>
   t_clock_ok now (s\<lparr>start := b, t_pairs := ps, t_ticks := Suc (t_ticks s)\<rparr>)"
  by (cases "t_driver s") (auto simp: t_clock_ok_def le_Suc_eq)

lemma thread_new_update:
  assumes "k < length ps"
    and "pinger p' = PiNew \<longleftrightarrow> pinger (ps ! k) = PiNew"
    and "ponger p' = PoNew \<longleftrightarrow> ponger (ps ! k) = PoNew"
  shows "thread_new t (ps[k := p']) \<longleftrightarrow> thread_new t ps"
  using assms by (cases "t div 2 = k") (auto simp: thread_new_def)

lemma thread_finished_update:
  assumes "k < length ps"
    and "pinger (ps ! k) = PiDone \<longrightarrow> pinger p' = PiDone"
    and "ponger (ps ! k) = PoDone \<longrightarrow> ponger p' = PoDone"
    and "thread_finished t ps"
  shows "thread_finished t (ps[k := p'])"
  using assms by (cases "t div 2 = k") (auto simp: thread_finished_def split: if_splits)

lemma all_started_update:
  assumes "all_started ps" and "pinger p' \<noteq> PiNew" and "ponger p' \<noteq> PoNew"
  shows "all_started (ps[k := p'])"
proof -
  have "set (ps[k := p']) \<subseteq> insert p' (set ps)" by (rule set_update_subset_insert)
  with assms show ?thesis by (auto simp: all_started_def)
qed

lemma pair_ok_mono: "pair_ok iters r p \<Longrightarrow> (r \<longrightarrow> r') \<Longrightarrow> pair_ok iters r' p"
  by (auto simp: pair_ok_def)

lemma threads_worker_inv:
  assumes inv: "tinv now iters pairs s"
    and step: "threads_worker f k s = Some s1"
    and f: "\<And>b p b' p'. pair_ok iters (b_released b) p \<Longrightarrow> f b p = Some (b', p') \<Longrightarrow>
       worker_step_ok iters b p b' p'"
  shows "tinv now iters pairs (s1\<lparr>t_ticks := Suc (t_ticks s)\<rparr>) \<and>
         Suc (t_left iters (s1\<lparr>t_ticks := Suc (t_ticks s)\<rparr>)) = t_left iters s"
proof -
  let ?ps = "t_pairs s" and ?b = "start s"
  from step obtain b' p' where k: "k < length ?ps" and fp: "f ?b (?ps ! k) = Some (b', p')"
    and s1: "s1 = s\<lparr>start := b', t_pairs := ?ps[k := p']\<rparr>"
    by (auto simp: threads_worker_def split: if_splits option.splits)
  from inv have len: "length ?ps = nat pairs"
    and oks: "\<forall>p\<in>set ?ps. pair_ok iters (b_released ?b) p"
    and bar: "t_barrier_ok s" and drv: "t_driver_ok s" and clk: "t_clock_ok now s"
    by (simp_all add: tinv_def)
  from oks k have "pair_ok iters (b_released ?b) (?ps ! k)" by simp
  from f [OF this fp] have w: "worker_step_ok iters ?b (?ps ! k) b' p'" .
  then have inv': "pair_inv iters p'"
    and left: "Suc (pair_left iters p') = pair_left iters (?ps ! k)"
    and new: "pinger p' = PiNew \<longleftrightarrow> pinger (?ps ! k) = PiNew"
             "ponger p' = PoNew \<longleftrightarrow> ponger (?ps ! k) = PoNew"
    and fin: "pinger (?ps ! k) = PiDone \<longrightarrow> pinger p' = PiDone"
             "ponger (?ps ! k) = PoDone \<longrightarrow> ponger p' = PoDone"
    and nd: "\<not> pair_done (?ps ! k)"
    and bb: "(b' = ?b \<and> pair_arrivals p' = pair_arrivals (?ps ! k)) \<or>
             (b' = arrive ?b \<and> pair_arrivals p' = Suc (pair_arrivals (?ps ! k)))"
    and passed: "pi_passed (pinger p') \<longrightarrow> b_released b'" "po_passed (ponger p') \<longrightarrow> b_released b'"
    by (simp_all add: worker_step_ok_def)
  from bb have mono: "b_released ?b \<longrightarrow> b_released b'" by (auto simp: arrive_simps)
  have oks': "\<forall>p\<in>set (?ps[k := p']). pair_ok iters (b_released b') p"
  proof
    fix p assume "p \<in> set (?ps[k := p'])"
    then have "p = p' \<or> p \<in> set ?ps" using set_update_subset_insert by fastforce
    then show "pair_ok iters (b_released b') p"
    proof
      assume "p = p'"
      with inv' passed show ?thesis by (simp add: pair_ok_def)
    next
      assume "p \<in> set ?ps"
      with oks mono show ?thesis using pair_ok_mono by blast
    qed
  qed
  have bar': "t_barrier_ok (s\<lparr>start := b', t_pairs := ?ps[k := p'], t_ticks := Suc (t_ticks s)\<rparr>)"
  proof -
    from bb show ?thesis
    proof
      assume a: "b' = ?b \<and> pair_arrivals p' = pair_arrivals (?ps ! k)"
      with arrivals_update [OF k, of p'] have "arrivals (?ps[k := p']) = arrivals ?ps" by simp
      with a bar show ?thesis by (auto simp: t_barrier_ok_def)
    next
      assume a: "b' = arrive ?b \<and> pair_arrivals p' = Suc (pair_arrivals (?ps ! k))"
      with arrivals_update [OF k, of p'] have "arrivals (?ps[k := p']) = Suc (arrivals ?ps)" by simp
      moreover from bar have "b_released ?b \<longrightarrow> b_parties ?b \<le> b_count ?b"
        "\<not> b_released ?b \<longrightarrow> b_count ?b < b_parties ?b"
        unfolding t_barrier_ok_def by blast+
      note arrive_ok [OF this]
      ultimately show ?thesis using a bar
        by (auto simp: t_barrier_ok_def arrive_simps)
    qed
  qed
  have drv': "t_driver_ok (s\<lparr>start := b', t_pairs := ?ps[k := p'], t_ticks := Suc (t_ticks s)\<rparr>)"
  proof (cases "t_driver s")
    case (TStart j)
    with drv thread_new_update [OF k new] show ?thesis by (simp add: t_driver_ok_def)
  next
    case (TJoin j)
    with drv have "all_started ?ps" by (simp add: t_driver_ok_def)
    then have "pinger (?ps ! k) \<noteq> PiNew" "ponger (?ps ! k) \<noteq> PoNew"
      using k by (auto simp: all_started_def)
    with new all_started_update [OF \<open>all_started ?ps\<close>, of p' k]
    have "all_started (?ps[k := p'])" by simp
    with TJoin drv mono thread_finished_update [OF k fin] show ?thesis
      by (simp add: t_driver_ok_def)
  next
    case TNow1
    with drv k nd show ?thesis by (auto simp: t_driver_ok_def list_all_length)
  next
    case TReturn
    with drv k nd show ?thesis by (auto simp: t_driver_ok_def list_all_length)
  next
    case TNow0
    with drv have "all_started ?ps" by (simp add: t_driver_ok_def)
    then have "pinger (?ps ! k) \<noteq> PiNew" "ponger (?ps ! k) \<noteq> PoNew"
      using k by (auto simp: all_started_def)
    with new all_started_update [OF \<open>all_started ?ps\<close>, of p' k] TNow0 show ?thesis
      by (simp add: t_driver_ok_def)
  next
    case TArrive
    with drv have "all_started ?ps" by (simp add: t_driver_ok_def)
    then have "pinger (?ps ! k) \<noteq> PiNew" "ponger (?ps ! k) \<noteq> PoNew"
      using k by (auto simp: all_started_def)
    with new all_started_update [OF \<open>all_started ?ps\<close>, of p' k] TArrive show ?thesis
      by (simp add: t_driver_ok_def)
  next
    case TBlocked
    with drv have "all_started ?ps" by (simp add: t_driver_ok_def)
    then have "pinger (?ps ! k) \<noteq> PiNew" "ponger (?ps ! k) \<noteq> PoNew"
      using k by (auto simp: all_started_def)
    with new all_started_update [OF \<open>all_started ?ps\<close>, of p' k] TBlocked show ?thesis
      by (simp add: t_driver_ok_def)
  qed
  from sum_list_map_update [OF k, of "pair_left iters" p'] left
  have "Suc (sum_list (map (pair_left iters) (?ps[k := p']))) = sum_list (map (pair_left iters) ?ps)"
    by simp
  then have m: "Suc (t_left iters (s\<lparr>start := b', t_pairs := ?ps[k := p'], t_ticks := Suc (t_ticks s)\<rparr>))
      = t_left iters s"
    by (simp add: t_left_def)
  from len oks' bar' drv' t_clock_ok_tick [OF clk, where b = b' and ps = "?ps[k := p']"] m
  show ?thesis unfolding s1 by (simp add: tinv_def)
qed

subsection \<open>\<^verbatim>\<open>pingpong_threads\<close>: the driver's step keeps the invariant\<close>

lemma add_pair_ok:
  "pair_ok iters False add_pair" "pair_arrivals add_pair = 0"
  "pair_left iters add_pair = 4 + 4 * nat iters"
  by (simp_all add: pair_ok_def pair_inv_def add_pair_def chan_is_new pair_arrivals_def
      pair_left_def)

lemma tinv_init:
  assumes "0 \<le> pairs"
  shows "tinv now iters pairs (pingpong_threads_init pairs)"
proof -
  let ?ps = "replicate (nat pairs) add_pair"
  have arr: "arrivals ?ps = 0"
    by (simp add: arrivals_def add_pair_ok sum_list_map_replicate del: map_replicate)
  have new: "t < 2 * nat pairs \<Longrightarrow> thread_new t ?ps" for t
    by (simp add: thread_new_def add_pair_def)
  have "t_driver_ok (pingpong_threads_init pairs)"
    using new by (auto simp: t_driver_ok_def pingpong_threads_init_def start_loop_def all_started_def)
  moreover have "t_barrier_ok (pingpong_threads_init pairs)"
    using assms arr by (auto simp: t_barrier_ok_def pingpong_threads_init_def start_loop_def)
  moreover have "t_clock_ok now (pingpong_threads_init pairs)"
    by (auto simp: t_clock_ok_def pingpong_threads_init_def start_loop_def)
  ultimately show ?thesis
    by (simp add: tinv_def pingpong_threads_init_def add_pair_ok)
qed

lemma thread_start_effect:
  assumes "thread_start k ps = Some ps'"
  shows "\<exists>p'. ps' = ps[k div 2 := p'] \<and> k div 2 < length ps \<and>
     thread_new k ps \<and> \<not> thread_new k ps' \<and>
     (\<forall>iters r. pair_ok iters r (ps ! (k div 2)) \<longrightarrow> pair_ok iters r p') \<and>
     pair_arrivals p' = pair_arrivals (ps ! (k div 2)) \<and>
     (\<forall>iters. pair_left iters p' = pair_left iters (ps ! (k div 2))) \<and>
     (if even k then ponger p' = ponger (ps ! (k div 2)) \<and> pinger p' = PiStarted
      else pinger p' = pinger (ps ! (k div 2)) \<and> ponger p' = PoStarted)"
proof (cases "even k")
  case True
  let ?p = "ps ! (k div 2)"
  from assms True have k: "k div 2 < length ps" and n: "pinger ?p = PiNew"
    and ps': "ps' = ps[k div 2 := ?p\<lparr>pinger := PiStarted\<rparr>]"
    by (auto simp: thread_start_def Let_def split: if_splits)
  have "\<forall>iters r. pair_ok iters r ?p \<longrightarrow> pair_ok iters r (?p\<lparr>pinger := PiStarted\<rparr>)"
    using n pair_inv_pinger_pre [of _ ?p PiStarted] by (simp add: pair_ok_def)
  with True k n ps' show ?thesis
    by (intro exI [of _ "?p\<lparr>pinger := PiStarted\<rparr>"])
      (simp add: thread_new_def pair_arrivals_def pair_left_def)
next
  case False
  let ?p = "ps ! (k div 2)"
  from assms False have k: "k div 2 < length ps" and n: "ponger ?p = PoNew"
    and ps': "ps' = ps[k div 2 := ?p\<lparr>ponger := PoStarted\<rparr>]"
    by (auto simp: thread_start_def Let_def split: if_splits)
  have "\<forall>iters r. pair_ok iters r ?p \<longrightarrow> pair_ok iters r (?p\<lparr>ponger := PoStarted\<rparr>)"
    using n pair_inv_ponger_pre [of _ ?p PoStarted] by (simp add: pair_ok_def)
  with False k n ps' show ?thesis
    by (intro exI [of _ "?p\<lparr>ponger := PoStarted\<rparr>"])
      (simp add: thread_new_def pair_arrivals_def pair_left_def)
qed

lemma thread_new_other:
  assumes "k div 2 < length ps" and "t \<noteq> k"
    and "if even k then ponger p' = ponger (ps ! (k div 2))
         else pinger p' = pinger (ps ! (k div 2))"
  shows "thread_new t (ps[k div 2 := p']) \<longleftrightarrow> thread_new t ps"
proof (cases "t div 2 = k div 2")
  case True
  with assms(2) have "even t \<longleftrightarrow> odd k"
    by (metis dvd_mult_div_cancel odd_two_times_div_two_succ)
  with True assms(1,3) show ?thesis by (auto simp: thread_new_def)
next
  case False
  then show ?thesis by (simp add: thread_new_def)
qed

lemma no_thread_new_all_started:
  assumes "\<forall>t<2 * length ps. \<not> thread_new t ps"
  shows "all_started ps"
  unfolding all_started_def
proof
  fix p assume "p \<in> set ps"
  then obtain j where j: "j < length ps" "ps ! j = p" by (auto simp: in_set_conv_nth)
  from j(1) assms have "\<not> thread_new (2 * j) ps" "\<not> thread_new (2 * j + 1) ps" by simp_all
  with j(2) show "pinger p \<noteq> PiNew \<and> ponger p \<noteq> PoNew" by (simp add: thread_new_def)
qed

lemma all_finished_done:
  assumes "\<forall>t<2 * length ps. thread_finished t ps"
  shows "list_all pair_done ps"
  unfolding list_all_length
proof (intro allI impI)
  fix j assume j: "j < length ps"
  with assms have "thread_finished (2 * j) ps" "thread_finished (2 * j + 1) ps" by simp_all
  then show "pair_done (ps ! j)" by (simp add: thread_finished_def pair_done_def)
qed

lemma threads_driver_inv:
  assumes inv: "tinv now iters pairs s"
    and step: "threads_driver now s = Some s1"
  shows "tinv now iters pairs (s1\<lparr>t_ticks := Suc (t_ticks s)\<rparr>) \<and>
         Suc (t_left iters (s1\<lparr>t_ticks := Suc (t_ticks s)\<rparr>)) = t_left iters s"
proof -
  let ?ps = "t_pairs s" and ?b = "start s" and ?n = "2 * length (t_pairs s)"
  from inv have len: "length ?ps = nat pairs"
    and oks: "\<forall>p\<in>set ?ps. pair_ok iters (b_released ?b) p"
    and bar: "t_barrier_ok s" and drv: "t_driver_ok s" and clk: "t_clock_ok now s"
    by (simp_all add: tinv_def)
  show ?thesis
  proof (cases "t_driver s")
    case (TStart k)
    with step obtain ps' where st: "thread_start k ?ps = Some ps'"
      and s1: "s1 = s\<lparr>t_pairs := ps', t_driver := start_loop ?n (k + 1)\<rparr>"
      by (auto simp: threads_driver_def Let_def split: option.splits)
    from thread_start_effect [OF st] obtain p' where ps': "ps' = ?ps[k div 2 := p']"
      and k2: "k div 2 < length ?ps" and nk: "\<not> thread_new k ps'"
      and ok': "\<forall>iters r. pair_ok iters r (?ps ! (k div 2)) \<longrightarrow> pair_ok iters r p'"
      and arr: "pair_arrivals p' = pair_arrivals (?ps ! (k div 2))"
      and left: "\<forall>iters. pair_left iters p' = pair_left iters (?ps ! (k div 2))"
      and other: "if even k then ponger p' = ponger (?ps ! (k div 2)) \<and> pinger p' = PiStarted
         else pinger p' = pinger (?ps ! (k div 2)) \<and> ponger p' = PoStarted"
      by blast
    from drv TStart have k: "k < ?n" and new: "\<forall>t<?n. thread_new t ?ps \<longleftrightarrow> k \<le> t"
      by (simp_all add: t_driver_ok_def)
    have len': "length ps' = length ?ps" by (simp add: ps')
    have oks': "\<forall>p\<in>set ps'. pair_ok iters (b_released ?b) p"
    proof
      fix p assume "p \<in> set ps'"
      then have "p = p' \<or> p \<in> set ?ps" unfolding ps' using set_update_subset_insert by fastforce
      with oks ok' k2 show "pair_ok iters (b_released ?b) p" by auto
    qed
    from arrivals_update [OF k2, of p'] arr have arr': "arrivals ps' = arrivals ?ps"
      by (simp add: ps')
    from sum_list_map_update [OF k2, of "pair_left iters" p'] left
    have sum': "sum_list (map (pair_left iters) ps') = sum_list (map (pair_left iters) ?ps)"
      by (simp add: ps')
    have new': "\<forall>t<?n. thread_new t ps' \<longleftrightarrow> k + 1 \<le> t"
    proof (intro allI impI)
      fix t assume t: "t < ?n"
      show "thread_new t ps' \<longleftrightarrow> k + 1 \<le> t"
      proof (cases "t = k")
        case True
        with nk show ?thesis by simp
      next
        case False
        from other have "if even k then ponger p' = ponger (?ps ! (k div 2))
          else pinger p' = pinger (?ps ! (k div 2))" by (simp split: if_splits)
        from thread_new_other [OF k2 False this] new t False show ?thesis
          unfolding ps' by auto
      qed
    qed
    have d': "driver_arrived (start_loop ?n (k + 1)) = False"
      by (simp add: start_loop_def)
    have bar': "t_barrier_ok (s1\<lparr>t_ticks := Suc (t_ticks s)\<rparr>)"
      using bar TStart arr' len' d' unfolding s1 t_barrier_ok_def by auto
    have drv': "t_driver_ok (s1\<lparr>t_ticks := Suc (t_ticks s)\<rparr>)"
    proof (cases "k + 1 < ?n")
      case True
      with new' len' show ?thesis unfolding s1 by (simp add: t_driver_ok_def start_loop_def)
    next
      case False
      with new' have "\<forall>t<2 * length ps'. \<not> thread_new t ps'" by (simp add: len')
      from no_thread_new_all_started [OF this] False show ?thesis
        unfolding s1 by (simp add: t_driver_ok_def start_loop_def)
    qed
    have clk': "t_clock_ok now (s1\<lparr>t_ticks := Suc (t_ticks s)\<rparr>)"
      using clk TStart unfolding s1 by (simp add: t_clock_ok_def start_loop_def)
    have m: "Suc (t_left iters (s1\<lparr>t_ticks := Suc (t_ticks s)\<rparr>)) = t_left iters s"
      using k TStart sum' len' unfolding s1 by (auto simp: t_left_def start_loop_def)
    from len len' oks' bar' drv' clk' m show ?thesis
      unfolding s1 by (simp add: tinv_def)
  next
    case TNow0
    with step have s1: "s1 = s\<lparr>t_t0 := Some (now (t_ticks s)), t_driver := TArrive\<rparr>"
      by (simp add: threads_driver_def Let_def)
    have "\<exists>\<tau>\<le>Suc (t_ticks s). now (t_ticks s) = now \<tau>"
      by (rule exI [of _ "t_ticks s"]) simp
    with clk TNow0 have clk': "t_clock_ok now (s1\<lparr>t_ticks := Suc (t_ticks s)\<rparr>)"
      unfolding s1 by (simp add: t_clock_ok_def)
    from bar TNow0 have bar': "t_barrier_ok (s1\<lparr>t_ticks := Suc (t_ticks s)\<rparr>)"
      unfolding s1 by (auto simp: t_barrier_ok_def)
    from drv TNow0 have drv': "t_driver_ok (s1\<lparr>t_ticks := Suc (t_ticks s)\<rparr>)"
      unfolding s1 by (simp add: t_driver_ok_def)
    from len oks bar' drv' clk' TNow0 show ?thesis
      unfolding s1 by (simp add: tinv_def t_left_def)
  next
    case TArrive
    with step have s1: "s1 = s\<lparr>start := arrive ?b, t_driver := TBlocked\<rparr>"
      by (simp add: threads_driver_def Let_def)
    from bar have "b_released ?b \<longrightarrow> b_parties ?b \<le> b_count ?b"
        "\<not> b_released ?b \<longrightarrow> b_count ?b < b_parties ?b"
      unfolding t_barrier_ok_def by blast+
    note arrive_ok [OF this]
    with bar TArrive have bar': "t_barrier_ok (s1\<lparr>t_ticks := Suc (t_ticks s)\<rparr>)"
      unfolding s1 by (auto simp: t_barrier_ok_def arrive_simps)
    have oks': "\<forall>p\<in>set ?ps. pair_ok iters (b_released (arrive ?b)) p"
      using oks pair_ok_mono arrive_simps(3) by blast
    from clk TArrive have clk': "t_clock_ok now (s1\<lparr>t_ticks := Suc (t_ticks s)\<rparr>)"
      unfolding s1 by (auto simp: t_clock_ok_def le_Suc_eq)
    from drv TArrive have drv': "t_driver_ok (s1\<lparr>t_ticks := Suc (t_ticks s)\<rparr>)"
      unfolding s1 by (simp add: t_driver_ok_def)
    from len oks' bar' drv' clk' TArrive show ?thesis
      unfolding s1 by (simp add: tinv_def t_left_def)
  next
    case TBlocked
    with step have rel: "b_released ?b" and s1: "s1 = s\<lparr>t_driver := join_loop ?n 0\<rparr>"
      by (simp_all add: threads_driver_def Let_def split: if_splits)
    from drv TBlocked have started: "all_started ?ps" by (simp add: t_driver_ok_def)
    have drv': "t_driver_ok (s1\<lparr>t_ticks := Suc (t_ticks s)\<rparr>)"
      using started rel unfolding s1 by (auto simp: t_driver_ok_def join_loop_def)
    have bar': "t_barrier_ok (s1\<lparr>t_ticks := Suc (t_ticks s)\<rparr>)"
      using bar TBlocked unfolding s1 by (auto simp: t_barrier_ok_def join_loop_def)
    from clk TBlocked have clk': "t_clock_ok now (s1\<lparr>t_ticks := Suc (t_ticks s)\<rparr>)"
      unfolding s1 by (auto simp: t_clock_ok_def le_Suc_eq join_loop_def)
    from len oks bar' drv' clk' TBlocked show ?thesis
      unfolding s1 by (auto simp: tinv_def t_left_def join_loop_def)
  next
    case (TJoin k)
    with step have fin: "thread_finished k ?ps" and s1: "s1 = s\<lparr>t_driver := join_loop ?n (k + 1)\<rparr>"
      by (simp_all add: threads_driver_def Let_def split: if_splits)
    from drv TJoin have k: "k < ?n" and started: "all_started ?ps" and rel: "b_released ?b"
      and fins: "\<forall>t<k. thread_finished t ?ps" by (simp_all add: t_driver_ok_def)
    from fins fin have fins': "\<forall>t<k + 1. thread_finished t ?ps"
      by (auto simp: less_Suc_eq)
    have drv': "t_driver_ok (s1\<lparr>t_ticks := Suc (t_ticks s)\<rparr>)"
    proof (cases "k + 1 < ?n")
      case True
      with fins' started rel show ?thesis unfolding s1 by (simp add: t_driver_ok_def join_loop_def)
    next
      case False
      with k have "k + 1 = ?n" by simp
      with fins' have "\<forall>t<2 * length ?ps. thread_finished t ?ps" by simp
      from all_finished_done [OF this] False started rel show ?thesis
        unfolding s1 by (simp add: t_driver_ok_def join_loop_def)
    qed
    have bar': "t_barrier_ok (s1\<lparr>t_ticks := Suc (t_ticks s)\<rparr>)"
      using bar TJoin unfolding s1 by (auto simp: t_barrier_ok_def join_loop_def)
    from clk TJoin have clk': "t_clock_ok now (s1\<lparr>t_ticks := Suc (t_ticks s)\<rparr>)"
      unfolding s1 by (auto simp: t_clock_ok_def le_Suc_eq join_loop_def)
    from len oks bar' drv' clk' TJoin k show ?thesis
      unfolding s1 by (auto simp: tinv_def t_left_def join_loop_def)
  next
    case TNow1
    from clk TNow1 obtain \<tau> where \<tau>: "\<tau> \<le> t_ticks s" "t_t0 s = Some (now \<tau>)"
      by (auto simp: t_clock_ok_def)
    with step TNow1 have s1: "s1 = s\<lparr>t_result := Some (now (t_ticks s) - now \<tau>), t_driver := TReturn\<rparr>"
      by (simp add: threads_driver_def Let_def)
    from \<tau>(1) have "\<exists>\<tau>0 \<tau>1. \<tau>0 \<le> \<tau>1 \<and> Some (now (t_ticks s) - now \<tau>) = Some (now \<tau>1 - now \<tau>0)"
      by blast
    with TNow1 \<tau>(2) have clk': "t_clock_ok now (s1\<lparr>t_ticks := Suc (t_ticks s)\<rparr>)"
      unfolding s1 by (simp add: t_clock_ok_def)
    from bar TNow1 have bar': "t_barrier_ok (s1\<lparr>t_ticks := Suc (t_ticks s)\<rparr>)"
      unfolding s1 by (auto simp: t_barrier_ok_def)
    from drv TNow1 have drv': "t_driver_ok (s1\<lparr>t_ticks := Suc (t_ticks s)\<rparr>)"
      unfolding s1 by (simp add: t_driver_ok_def)
    from len oks bar' drv' clk' TNow1 show ?thesis
      unfolding s1 by (simp add: tinv_def t_left_def)
  next
    case TReturn
    with step show ?thesis by (simp add: threads_driver_def Let_def)
  qed
qed

lemma threads_step_inv:
  assumes "tinv now iters pairs s" and "pingpong_threads_step now iters a s = Some s'"
  shows "tinv now iters pairs s' \<and> Suc (t_left iters s') = t_left iters s"
proof (cases a)
  case Driver
  with assms(2) obtain s1 where "threads_driver now s = Some s1"
    and "s' = s1\<lparr>t_ticks := Suc (t_ticks s)\<rparr>"
    by (auto simp: pingpong_threads_step_def)
  with threads_driver_inv [OF assms(1)] show ?thesis by blast
next
  case (Pinger k)
  with assms(2) obtain s1 where s1: "threads_worker (thread_pinger iters) k s = Some s1"
    and s': "s' = s1\<lparr>t_ticks := Suc (t_ticks s)\<rparr>"
    by (auto simp: pingpong_threads_step_def)
  from threads_worker_inv [OF assms(1) s1 thread_pinger_ok] s' show ?thesis by simp
next
  case (Ponger k)
  with assms(2) obtain s1 where s1: "threads_worker (thread_ponger iters) k s = Some s1"
    and s': "s' = s1\<lparr>t_ticks := Suc (t_ticks s)\<rparr>"
    by (auto simp: pingpong_threads_step_def)
  from threads_worker_inv [OF assms(1) s1 thread_ponger_ok] s' show ?thesis by simp
qed

subsection \<open>\<^verbatim>\<open>pingpong_threads\<close>: some actor can always move\<close>

lemma pinger_step_thread:
  "pinger_step iters p = Some p' \<Longrightarrow> thread_pinger iters b p = Some (b, p')"
  by (cases "pinger p") (simp_all add: thread_pinger_def pinger_step_def)

lemma ponger_step_thread:
  "ponger_step iters p = Some p' \<Longrightarrow> thread_ponger iters b p = Some (b, p')"
  by (cases "ponger p") (simp_all add: thread_ponger_def ponger_step_def)

lemma worker_moves:
  assumes "k < length (t_pairs s)"
    and "(\<exists>x. thread_pinger iters (start s) (t_pairs s ! k) = Some x) \<or>
         (\<exists>x. thread_ponger iters (start s) (t_pairs s ! k) = Some x)"
  shows "\<exists>a s'. pingpong_threads_step now iters a s = Some s'"
  using assms(2)
proof
  assume "\<exists>x. thread_pinger iters (start s) (t_pairs s ! k) = Some x"
  with assms(1) have "\<exists>s'. pingpong_threads_step now iters (Pinger k) s = Some s'"
    by (auto simp: pingpong_threads_step_def threads_worker_def)
  then show ?thesis by blast
next
  assume "\<exists>x. thread_ponger iters (start s) (t_pairs s ! k) = Some x"
  with assms(1) have "\<exists>s'. pingpong_threads_step now iters (Ponger k) s = Some s'"
    by (auto simp: pingpong_threads_step_def threads_worker_def)
  then show ?thesis by blast
qed

lemma not_arrived_enabled:
  assumes "pinger p \<noteq> PiNew" and "ponger p \<noteq> PoNew"
    and "\<not> pi_arrived (pinger p) \<or> \<not> po_arrived (ponger p)"
  shows "(\<exists>x. thread_pinger iters b p = Some x) \<or> (\<exists>x. thread_ponger iters b p = Some x)"
  using assms
  by (cases "pinger p"; cases "ponger p") (simp_all add: thread_pinger_def thread_ponger_def)

lemma released_enabled:
  assumes inv: "pair_inv iters p" and "pinger p \<noteq> PiNew" and "ponger p \<noteq> PoNew"
    and rel: "b_released b" and nd: "\<not> pair_done p"
  shows "(\<exists>x. thread_pinger iters b p = Some x) \<or> (\<exists>x. thread_ponger iters b p = Some x)"
proof (cases "pi_passed (pinger p) \<and> po_passed (ponger p)")
  case True
  with pair_progress [OF inv _ _ nd] pinger_step_thread [of iters p _ b]
    ponger_step_thread [of iters p _ b]
  show ?thesis by blast
next
  case False
  then have "\<not> pi_passed (pinger p) \<or> \<not> po_passed (ponger p)" by simp
  then show ?thesis
  proof
    assume "\<not> pi_passed (pinger p)"
    with assms(2) rel have "\<exists>x. thread_pinger iters b p = Some x"
      by (cases "pinger p") (simp_all add: thread_pinger_def)
    then show ?thesis ..
  next
    assume "\<not> po_passed (ponger p)"
    with assms(3) rel have "\<exists>x. thread_ponger iters b p = Some x"
      by (cases "ponger p") (simp_all add: thread_ponger_def)
    then show ?thesis ..
  qed
qed

lemma threads_progress:
  assumes inv: "tinv now iters pairs s" and nf: "t_driver s \<noteq> TReturn"
  shows "\<exists>a s'. pingpong_threads_step now iters a s = Some s'"
proof (cases "\<exists>s1. threads_driver now s = Some s1")
  case True
  then show ?thesis
    by (auto simp: pingpong_threads_step_def intro!: exI [of _ Driver])
next
  case False
  let ?ps = "t_pairs s" and ?b = "start s"
  from inv have oks: "\<forall>p\<in>set ?ps. pair_ok iters (b_released ?b) p"
    and bar: "t_barrier_ok s" and drv: "t_driver_ok s" and clk: "t_clock_ok now s"
    by (simp_all add: tinv_def)
  show ?thesis
  proof (cases "t_driver s")
    case (TStart k)
    with drv have "k < 2 * length ?ps" "thread_new k ?ps" by (simp_all add: t_driver_ok_def)
    then have "\<exists>ps'. thread_start k ?ps = Some ps'"
      by (auto simp: thread_start_def thread_new_def Let_def)
    with False TStart show ?thesis by (auto simp: threads_driver_def Let_def)
  next
    case TNow0
    with False show ?thesis by (simp add: threads_driver_def Let_def)
  next
    case TArrive
    with False show ?thesis by (simp add: threads_driver_def Let_def)
  next
    case TBlocked
    with False have nrel: "\<not> b_released ?b" by (auto simp: threads_driver_def Let_def)
    from drv TBlocked have started: "all_started ?ps" by (simp add: t_driver_ok_def)
    from bar nrel TBlocked have "arrivals ?ps < 2 * length ?ps"
      by (auto simp: t_barrier_ok_def)
    from arrivals_some [OF this] obtain k where k: "k < length ?ps"
      "\<not> pi_arrived (pinger (?ps ! k)) \<or> \<not> po_arrived (ponger (?ps ! k))" by blast
    from started k(1) have "pinger (?ps ! k) \<noteq> PiNew" "ponger (?ps ! k) \<noteq> PoNew"
      by (auto simp: all_started_def)
    from worker_moves [OF k(1) not_arrived_enabled [OF this k(2)]] show ?thesis .
  next
    case (TJoin k)
    with False have nfin: "\<not> thread_finished k ?ps" by (auto simp: threads_driver_def Let_def)
    from drv TJoin have k: "k < 2 * length ?ps" and started: "all_started ?ps"
      and rel: "b_released ?b" by (simp_all add: t_driver_ok_def)
    from k have k2: "k div 2 < length ?ps" by simp
    with nfin have nd: "\<not> pair_done (?ps ! (k div 2))"
      by (auto simp: thread_finished_def pair_done_def split: if_splits)
    from started k2 have ns: "pinger (?ps ! (k div 2)) \<noteq> PiNew" "ponger (?ps ! (k div 2)) \<noteq> PoNew"
      by (auto simp: all_started_def)
    from oks k2 have "pair_inv iters (?ps ! (k div 2))" by (simp add: pair_ok_def)
    from worker_moves [OF k2 released_enabled [OF this ns rel nd]] show ?thesis .
  next
    case TNow1
    with clk False show ?thesis by (auto simp: threads_driver_def Let_def t_clock_ok_def)
  next
    case TReturn
    with nf show ?thesis by simp
  qed
qed

subsection \<open>Every state of a run\<close>

lemma asyncio_reach:
  assumes "pingpong_asyncio now iters pairs sched = Some s"
  shows "ainv now iters pairs s"
    and "length sched + a_left iters pairs s = 4 + nat pairs * (4 * nat iters)"
proof -
  let ?step = "pingpong_asyncio_step now iters pairs"
  from assms have run: "exec ?step sched pingpong_asyncio_init = Some s"
    by (simp add: pingpong_asyncio_def)
  from exec_invariant [of "ainv now iters pairs" ?step, OF _ ainv_init run] asyncio_step_inv
  show "ainv now iters pairs s" by blast
  from exec_measure [of "ainv now iters pairs" ?step "a_left iters pairs", OF _ ainv_init run]
    asyncio_step_inv
  have "length sched + a_left iters pairs s = a_left iters pairs pingpong_asyncio_init" by blast
  then show "length sched + a_left iters pairs s = 4 + nat pairs * (4 * nat iters)"
    by (simp add: a_left_def pingpong_asyncio_init_def)
qed

lemma asyncio_finish:
  assumes "pingpong_asyncio now iters pairs sched = Some s"
  shows "\<exists>sched' s'. pingpong_asyncio now iters pairs (sched @ sched') = Some s' \<and>
     a_driver s' = AReturn"
proof -
  let ?step = "pingpong_asyncio_step now iters pairs"
  from exec_complete [of "ainv now iters pairs" ?step "a_left iters pairs"
      "\<lambda>s. a_driver s = AReturn", OF _ _ asyncio_reach(1) [OF assms]]
    asyncio_step_inv asyncio_progress
  obtain sched' s' where "exec ?step sched' s = Some s'" "a_driver s' = AReturn" by blast
  with assms have "pingpong_asyncio now iters pairs (sched @ sched') = Some s' \<and>
     a_driver s' = AReturn"
    by (simp add: pingpong_asyncio_def exec_append)
  then show ?thesis by blast
qed

lemma threads_reach:
  assumes "0 \<le> pairs" and "pingpong_threads now iters pairs sched = Some s"
  shows "tinv now iters pairs s"
    and "length sched + t_left iters s = 4 * nat pairs + 4 + nat pairs * (4 + 4 * nat iters)"
proof -
  let ?step = "pingpong_threads_step now iters"
  note init = tinv_init [OF assms(1), of now iters]
  from assms have run: "exec ?step sched (pingpong_threads_init pairs) = Some s"
    by (simp add: pingpong_threads_def)
  from exec_invariant [of "tinv now iters pairs" ?step, OF _ init run] threads_step_inv
  show "tinv now iters pairs s" by blast
  from exec_measure [of "tinv now iters pairs" ?step "t_left iters", OF _ init run]
    threads_step_inv
  have "length sched + t_left iters s = t_left iters (pingpong_threads_init pairs)" by blast
  moreover have "t_left iters (pingpong_threads_init pairs)
      = 4 * nat pairs + 4 + nat pairs * (4 + 4 * nat iters)"
    by (simp add: t_left_def pingpong_threads_init_def start_loop_def add_pair_ok
        sum_list_map_replicate del: map_replicate)
  ultimately show "length sched + t_left iters s
      = 4 * nat pairs + 4 + nat pairs * (4 + 4 * nat iters)" by simp
qed

lemma threads_finish:
  assumes "0 \<le> pairs" and "pingpong_threads now iters pairs sched = Some s"
  shows "\<exists>sched' s'. pingpong_threads now iters pairs (sched @ sched') = Some s' \<and>
     t_driver s' = TReturn"
proof -
  let ?step = "pingpong_threads_step now iters"
  from exec_complete [of "tinv now iters pairs" ?step "t_left iters"
      "\<lambda>s. t_driver s = TReturn", OF _ _ threads_reach(1) [OF assms]]
    threads_step_inv threads_progress
  obtain sched' s' where "exec ?step sched' s = Some s'" "t_driver s' = TReturn" by blast
  with assms(2) have "pingpong_threads now iters pairs (sched @ sched') = Some s' \<and>
     t_driver s' = TReturn"
    by (simp add: pingpong_threads_def exec_append)
  then show ?thesis by blast
qed

subsection \<open>What the invariant says about the logs\<close>

lemma upto_0_max: "[0..max 0 n - 1] = [0..n - 1]"
  by (cases "0 \<le> n") (simp_all add: max_def)

lemma pair_done_logs:
  assumes "pair_inv iters p" and "pair_done p"
  shows "put_log (q1 p) = [0..iters - 1]" "get_log (q1 p) = [0..iters - 1]"
    "put_log (q2 p) = [0..iters - 1]" "get_log (q2 p) = [0..iters - 1]"
  using assms by (simp_all add: pair_inv_def pair_done_def chan_is_def upto_0_max)

lemma chan_is_fifo: "chan_is q g u \<Longrightarrow> put_log q = get_log q @ q_items q"
proof -
  assume c: "chan_is q g u"
  then have "u = g \<or> u = g + 1" by (auto simp: chan_is_def)
  then show ?thesis
  proof
    assume "u = g"
    with c show ?thesis by (simp add: chan_is_def)
  next
    assume "u = g + 1"
    with c show ?thesis by (simp add: chan_is_def upto_single upto_snoc)
  qed
qed

lemma pair_inv_fifo:
  "pair_inv iters p \<Longrightarrow> put_log (q1 p) = get_log (q1 p) @ q_items (q1 p) \<and>
     put_log (q2 p) = get_log (q2 p) @ q_items (q2 p)"
  by (auto simp: pair_inv_def dest: chan_is_fifo)

lemma done_counts:
  assumes inv: "\<forall>p\<in>set ps. pair_inv iters p" and dn: "list_all pair_done ps"
    and len: "length ps = nat pairs" and pos: "0 \<le> iters" "0 \<le> pairs"
  shows "all_counts iters pairs ps"
proof -
  have each: "length (put_log (q1 p)) = nat iters \<and> length (get_log (q1 p)) = nat iters \<and>
        length (put_log (q2 p)) = nat iters \<and> length (get_log (q2 p)) = nat iters"
    if "p \<in> set ps" for p
  proof -
    from that inv dn have "pair_inv iters p" "pair_done p" by (simp_all add: list_all_iff)
    from pair_done_logs [OF this] show ?thesis by simp
  qed
  then have "\<forall>p\<in>set ps. q1_ops p = 2 * nat iters" "\<forall>p\<in>set ps. q2_ops p = 2 * nat iters"
    by (simp_all add: q1_ops_def q2_ops_def)
  then have "map q1_ops ps = replicate (length ps) (2 * nat iters)"
    "map q2_ops ps = replicate (length ps) (2 * nat iters)"
    by (simp_all add: map_replicate_const [symmetric])
  then have "sum_list (map q1_ops ps) = nat pairs * (2 * nat iters)"
    "sum_list (map q2_ops ps) = nat pairs * (2 * nat iters)"
    using len by (simp_all add: sum_list_replicate)
  with pos have "int (sum_list (map q1_ops ps)) = pairs * (2 * iters)"
    "int (sum_list (map q2_ops ps)) = pairs * (2 * iters)"
    by simp_all
  with each len show ?thesis by (simp add: all_counts_def)
qed

lemma done_values:
  assumes "\<forall>p\<in>set ps. pair_inv iters p" and "list_all pair_done ps"
  shows "all_values iters ps"
  using assms pair_done_logs by (simp add: all_values_def list_all_iff)

lemma no_iterations_no_ops:
  assumes "pair_inv iters p" and "iters \<le> 0"
  shows "no_ops p"
proof -
  from assms have "pi_puts iters (pinger p) = 0" "pi_gets iters (pinger p) = 0"
    by (cases "pinger p"; simp add: pair_inv_def)+
  moreover from assms have "po_puts iters (ponger p) = 0" "po_gets iters (ponger p) = 0"
    by (cases "ponger p"; simp add: pair_inv_def)+
  ultimately show ?thesis using assms(1) by (simp add: pair_inv_def chan_is_def no_ops_def)
qed

lemma before_barrier_no_ops:
  assumes "pair_inv iters p"
  shows "\<not> pi_passed (pinger p) \<Longrightarrow> put_log (q1 p) = [] \<and> get_log (q2 p) = []"
    and "\<not> po_passed (ponger p) \<Longrightarrow> get_log (q1 p) = [] \<and> put_log (q2 p) = []"
proof -
  assume "\<not> pi_passed (pinger p)"
  then have "pi_puts iters (pinger p) = 0" "pi_gets iters (pinger p) = 0"
    by (cases "pinger p"; simp)+
  with assms show "put_log (q1 p) = [] \<and> get_log (q2 p) = []"
    by (simp add: pair_inv_def chan_is_def)
next
  assume "\<not> po_passed (ponger p)"
  then have "po_puts iters (ponger p) = 0" "po_gets iters (ponger p) = 0"
    by (cases "ponger p"; simp)+
  with assms show "get_log (q1 p) = [] \<and> put_log (q2 p) = []"
    by (simp add: pair_inv_def chan_is_def)
qed

subsection \<open>The driver's steps along a schedule\<close>

lemma exec_snoc:
  "exec step (as @ [a]) s = (case exec step as s of None \<Rightarrow> None | Some s' \<Rightarrow> step a s')"
  by (simp add: exec_append split: option.splits)

lemma exec_take:
  assumes "exec step as s = Some s'"
  shows "\<exists>s1. exec step (take k as) s = Some s1"
proof -
  have "exec step (take k as @ drop k as) s = Some s'" using assms by simp
  then show ?thesis unfolding exec_append by (auto split: option.splits)
qed

text \<open>A property of a state and of the schedule that led to it, step by step.\<close>

lemma exec_history:
  assumes init: "H [] s0"
    and step: "\<And>as s a s'. exec step as s0 = Some s \<Longrightarrow> H as s \<Longrightarrow> step a s = Some s' \<Longrightarrow>
                 H (as @ [a]) s'"
  shows "exec step as s0 = Some s \<Longrightarrow> H as s"
proof (induction as arbitrary: s rule: rev_induct)
  case Nil
  with init show ?case by simp
next
  case (snoc a as)
  from snoc.prems obtain s1 where s1: "exec step as s0 = Some s1" "step a s1 = Some s"
    by (auto simp: exec_snoc split: option.splits)
  from step [OF s1(1) snoc.IH [OF s1(1)] s1(2)] show ?case .
qed

lemma driver_ticks_Nil: "driver_ticks [] = []"
  by (simp add: driver_ticks_def)

lemma driver_ticks_snoc:
  "driver_ticks (as @ [a]) = driver_ticks as @ (if a = Driver then [length as] else [])"
proof -
  have "filter (\<lambda>i. (as @ [a]) ! i = Driver) [0..<length as] =
        filter (\<lambda>i. as ! i = Driver) [0..<length as]"
    by (rule filter_cong) (simp_all add: nth_append)
  then show ?thesis by (simp add: driver_ticks_def)
qed

lemma driver_ticks_sorted: "sorted_wrt (<) (driver_ticks as)"
  unfolding driver_ticks_def by (rule sorted_wrt_filter) simp

lemma driver_ticks_less: "m < length (driver_ticks as) \<Longrightarrow> driver_ticks as ! m < length as"
proof -
  assume "m < length (driver_ticks as)"
  then have "driver_ticks as ! m \<in> set (driver_ticks as)" by simp
  then show ?thesis by (simp add: driver_ticks_def)
qed

text \<open>Before its step number \<open>m\<close> the driver has taken \<open>m\<close> steps.\<close>

lemma driver_ticks_take:
  "m < length (driver_ticks as) \<Longrightarrow>
   driver_ticks (take (driver_ticks as ! m) as) = take m (driver_ticks as)"
proof (induction as rule: rev_induct)
  case Nil
  then show ?case by (simp add: driver_ticks_Nil)
next
  case (snoc a as)
  show ?case
  proof (cases "m < length (driver_ticks as)")
    case True
    from driver_ticks_less [OF True] have "driver_ticks as ! m < length as" .
    with True snoc.IH [OF True] show ?thesis by (simp add: driver_ticks_snoc nth_append)
  next
    case False
    with snoc.prems have a: "a = Driver" and m: "m = length (driver_ticks as)"
      by (auto simp: driver_ticks_snoc split: if_splits)
    then show ?thesis by (simp add: driver_ticks_snoc)
  qed
qed

text \<open>A worker thread leaves the driver and the two times alone.\<close>

lemma threads_worker_driver:
  "threads_worker f k s = Some s' \<Longrightarrow>
   t_driver s' = t_driver s \<and> t_t0 s' = t_t0 s \<and> t_result s' = t_result s"
  by (auto simp: threads_worker_def split: if_splits option.splits)

text \<open>
  One step of the driver, from the statement it is at after \<open>m\<close> steps to the one after
  \<open>m + 1\<close> steps: the start time is written by step \<open>n\<close> and the result by step
  \<open>2 * n + 3\<close>, each with the clock of the tick of the step.
\<close>

lemma threads_driver_next:
  assumes d: "t_driver s = driver_at n m" and n: "2 * length (t_pairs s) = n"
    and step: "threads_driver now s = Some s'"
  shows "t_driver s' = driver_at n (Suc m) \<and> m < 2 * n + 4 \<and>
         t_t0 s' = (if m = n then Some (now (t_ticks s)) else t_t0 s) \<and>
         t_result s' = (if m = 2 * n + 3 then map_option (\<lambda>t0. now (t_ticks s) - t0) (t_t0 s)
                        else t_result s)"
proof -
  consider "m < n" | "m = n" | "m = n + 1" | "m = n + 2" | "n + 3 \<le> m" "m < 2 * n + 3"
    | "m = 2 * n + 3" | "2 * n + 4 \<le> m" by linarith
  then show ?thesis
  proof cases
    case 1
    with d have "t_driver s = TStart m" by (simp add: driver_at_def)
    with step n 1 show ?thesis
      by (auto simp: threads_driver_def driver_at_def start_loop_def Let_def split: option.splits)
  next
    case 2
    with d have "t_driver s = TNow0" by (simp add: driver_at_def)
    with step 2 show ?thesis by (auto simp: threads_driver_def driver_at_def Let_def)
  next
    case 3
    with d have "t_driver s = TArrive" by (simp add: driver_at_def)
    with step 3 show ?thesis by (auto simp: threads_driver_def driver_at_def Let_def)
  next
    case 4
    with d have "t_driver s = TBlocked" by (simp add: driver_at_def)
    with step n 4 show ?thesis
      by (auto simp: threads_driver_def driver_at_def join_loop_def Let_def split: if_splits)
  next
    case 5
    with d have "t_driver s = TJoin (m - (n + 3))" by (simp add: driver_at_def)
    with step n 5 show ?thesis
      by (auto simp: threads_driver_def driver_at_def join_loop_def Let_def split: if_splits)
  next
    case 6
    with d have "t_driver s = TNow1" by (simp add: driver_at_def)
    with step 6 show ?thesis
      by (auto simp: threads_driver_def driver_at_def Let_def split: option.splits)
  next
    case 7
    with d have "t_driver s = TReturn" by (simp add: driver_at_def)
    with step show ?thesis by (simp add: threads_driver_def Let_def)
  qed
qed

text \<open>
  Every state of a run of \<^verbatim>\<open>pingpong_threads\<close>, with \<open>n = 2 * pairs\<close> threads: the driver
  is at the statement that its number of steps gives, the start time is the clock at
  the tick of its step \<open>n\<close>, and the result is the clock at the tick of its step
  \<open>2 * n + 3\<close> minus the start time.
\<close>

lemma threads_history:
  assumes p: "0 \<le> pairs" and run: "pingpong_threads now iters pairs sched = Some s"
  shows "t_ticks s = length sched \<and>
         length (driver_ticks sched) \<le> 4 * nat pairs + 4 \<and>
         t_driver s = driver_at (2 * nat pairs) (length (driver_ticks sched)) \<and>
         t_t0 s = (if 2 * nat pairs < length (driver_ticks sched)
                   then Some (now (driver_ticks sched ! (2 * nat pairs))) else None) \<and>
         t_result s = (if 4 * nat pairs + 3 < length (driver_ticks sched)
                       then Some (now (driver_ticks sched ! (4 * nat pairs + 3)) -
                                  now (driver_ticks sched ! (2 * nat pairs)))
                       else None)"
proof -
  let ?step = "pingpong_threads_step now iters"
  let ?n = "2 * nat pairs"
  let ?H = "\<lambda>sched s. t_ticks s = length sched \<and>
         length (driver_ticks sched) \<le> 4 * nat pairs + 4 \<and>
         t_driver s = driver_at ?n (length (driver_ticks sched)) \<and>
         t_t0 s = (if ?n < length (driver_ticks sched)
                   then Some (now (driver_ticks sched ! ?n)) else None) \<and>
         t_result s = (if 4 * nat pairs + 3 < length (driver_ticks sched)
                       then Some (now (driver_ticks sched ! (4 * nat pairs + 3)) -
                                  now (driver_ticks sched ! ?n))
                       else None)"
  have init: "?H [] (pingpong_threads_init pairs)"
    by (simp add: driver_ticks_Nil pingpong_threads_init_def start_loop_def driver_at_def)
  have step: "?H (as @ [a]) s'"
    if r: "exec ?step as (pingpong_threads_init pairs) = Some s" and h: "?H as s"
      and st: "?step a s = Some s'" for as s a s'
  proof -
    from r have "pingpong_threads now iters pairs as = Some s" by (simp add: pingpong_threads_def)
    from threads_reach(1) [OF p this] have len: "2 * length (t_pairs s) = ?n"
      by (simp add: tinv_def)
    let ?d = "driver_ticks as"
    from h have ticks: "t_ticks s = length as" and m: "length ?d \<le> 4 * nat pairs + 4"
      and d: "t_driver s = driver_at ?n (length ?d)"
      and t0: "t_t0 s = (if ?n < length ?d then Some (now (?d ! ?n)) else None)"
      and res: "t_result s = (if 4 * nat pairs + 3 < length ?d
                       then Some (now (?d ! (4 * nat pairs + 3)) - now (?d ! ?n)) else None)"
      by simp_all
    show ?thesis
    proof (cases "a = Driver")
      case True
      with st obtain s1 where s1: "threads_driver now s = Some s1"
        and s': "s' = s1\<lparr>t_ticks := Suc (t_ticks s)\<rparr>"
        by (auto simp: pingpong_threads_step_def)
      from threads_driver_next [OF d len s1]
      have d1: "t_driver s1 = driver_at ?n (Suc (length ?d))" and m1: "length ?d < 2 * ?n + 4"
        and t1: "t_t0 s1 = (if length ?d = ?n then Some (now (t_ticks s)) else t_t0 s)"
        and r1: "t_result s1 = (if length ?d = 2 * ?n + 3
                   then map_option (\<lambda>t0. now (t_ticks s) - t0) (t_t0 s) else t_result s)"
        by simp_all
      have dt: "driver_ticks (as @ [a]) = ?d @ [length as]"
        using True by (simp add: driver_ticks_snoc)
      from s' ticks have "t_ticks s' = length (as @ [a])" by simp
      moreover from m1 have "length (driver_ticks (as @ [a])) \<le> 4 * nat pairs + 4"
        by (simp add: dt)
      moreover from d1 s' have "t_driver s' = driver_at ?n (length (driver_ticks (as @ [a])))"
        by (simp add: dt)
      moreover from t1 t0 s' ticks
      have "t_t0 s' = (if ?n < length (driver_ticks (as @ [a]))
                   then Some (now (driver_ticks (as @ [a]) ! ?n)) else None)"
        by (auto simp: dt nth_append)
      moreover from r1 res t0 s' ticks m1
      have "t_result s' = (if 4 * nat pairs + 3 < length (driver_ticks (as @ [a]))
                       then Some (now (driver_ticks (as @ [a]) ! (4 * nat pairs + 3)) -
                                  now (driver_ticks (as @ [a]) ! ?n))
                       else None)"
        by (auto simp: dt nth_append)
      ultimately show ?thesis by blast
    next
      case False
      then have dt: "driver_ticks (as @ [a]) = ?d" by (simp add: driver_ticks_snoc)
      from False st obtain f k s1 where s1: "threads_worker f k s = Some s1"
        and s': "s' = s1\<lparr>t_ticks := Suc (t_ticks s)\<rparr>"
        by (cases a) (auto simp: pingpong_threads_step_def)
      from threads_worker_driver [OF s1] s' ticks m d t0 res show ?thesis
        by (simp add: dt)
    qed
  qed
  from run have "exec ?step sched (pingpong_threads_init pairs) = Some s"
    by (simp add: pingpong_threads_def)
  from exec_history [of ?H "pingpong_threads_init pairs" ?step, OF init step this]
  show ?thesis .
qed

lemma released_all_arrived:
  assumes bar: "t_barrier_ok s" and rel: "b_released (start s)"
  shows "(\<forall>p\<in>set (t_pairs s). pi_arrived (pinger p) \<and> po_arrived (ponger p)) \<and>
     driver_arrived (t_driver s) \<and> b_count (start s) = b_parties (start s)"
proof -
  let ?ps = "t_pairs s"
  from bar rel have c: "2 * int (length ?ps) + 1
      \<le> int (arrivals ?ps) + (if driver_arrived (t_driver s) then 1 else 0)"
    and p: "b_parties (start s) = 2 * int (length ?ps) + 1"
    and n: "b_count (start s) = int (arrivals ?ps) + (if driver_arrived (t_driver s) then 1 else 0)"
    by (auto simp: t_barrier_ok_def)
  from arrivals_le [of ?ps] have le: "int (arrivals ?ps) \<le> 2 * int (length ?ps)" by linarith
  with c have d: "driver_arrived (t_driver s)" and a: "arrivals ?ps = 2 * length ?ps"
    by (auto split: if_splits)
  from arrivals_all [OF a] d a p n show ?thesis by auto
qed

lemma ops_need_release:
  assumes "pair_ok iters r p" and "\<not> no_ops p"
  shows r
proof (rule ccontr)
  assume "\<not> r"
  with assms(1) have "\<not> pi_passed (pinger p)" "\<not> po_passed (ponger p)" and inv: "pair_inv iters p"
    by (auto simp: pair_ok_def)
  with before_barrier_no_ops [OF inv] have "no_ops p" by (simp add: no_ops_def)
  with assms(2) show False by simp
qed

text \<open>
  Claim C1. Let \<open>iters \<ge> 1\<close> and \<open>pairs \<ge> 1\<close>. Whatever the order in which the
  scheduler lets the actors move, when \<^verbatim>\<open>pingpong_asyncio\<close> or \<^verbatim>\<open>pingpong_threads\<close>
  has returned there are \<open>pairs\<close> pairs, each of the two queues of every pair has seen
  exactly \<open>iters\<close> puts and \<open>iters\<close> gets, and the operations on the first queues of
  all pairs number \<open>pairs * (2 * iters)\<close>, as do those on the second queues.
\<close>

theorem pingpong_operation_counts:
  assumes "1 \<le> iters" and "1 \<le> pairs"
  shows "(pingpong_asyncio now iters pairs sched = Some sa \<and> a_driver sa = AReturn \<longrightarrow>
            all_counts iters pairs (a_pairs sa)) \<and>
         (pingpong_threads now iters pairs sched' = Some st \<and> t_driver st = TReturn \<longrightarrow>
            all_counts iters pairs (t_pairs st))"
proof (intro conjI impI)
  assume "pingpong_asyncio now iters pairs sched = Some sa \<and> a_driver sa = AReturn"
  then have run: "pingpong_asyncio now iters pairs sched = Some sa" and r: "a_driver sa = AReturn"
    by simp_all
  from asyncio_reach(1) [OF run] r
  have "\<forall>p\<in>set (a_pairs sa). pair_inv iters p" "list_all pair_done (a_pairs sa)"
    "length (a_pairs sa) = nat pairs"
    by (simp_all add: ainv_def a_driver_ok_def)
  from done_counts [OF this] assms show "all_counts iters pairs (a_pairs sa)" by simp
next
  assume "pingpong_threads now iters pairs sched' = Some st \<and> t_driver st = TReturn"
  then have run: "pingpong_threads now iters pairs sched' = Some st" and r: "t_driver st = TReturn"
    by simp_all
  from assms have "0 \<le> pairs" by simp
  from threads_reach(1) [OF this run] r
  have "\<forall>p\<in>set (t_pairs st). pair_inv iters p" "list_all pair_done (t_pairs st)"
    "length (t_pairs st) = nat pairs"
    by (simp_all add: tinv_def t_driver_ok_def pair_ok_def)
  from done_counts [OF this] assms show "all_counts iters pairs (t_pairs st)" by simp
qed

text \<open>
  Claim C2. Let \<open>iters \<ge> 1\<close>. Under both functions and every schedule, a queue holds
  at every moment exactly the values put and not yet got, in the order of the puts;
  and when the function has returned, the values the ponger got from \<open>q1\<close> are the
  values the pinger put, \<open>0, 1, \<dots>, iters - 1\<close> in this order, and the same holds for
  what the pinger got from \<open>q2\<close>.
\<close>

theorem pingpong_values_in_order:
  assumes "1 \<le> iters" and "1 \<le> pairs"
  shows "(pingpong_asyncio now iters pairs sched = Some sa \<longrightarrow>
            fifo (a_pairs sa) \<and> (a_driver sa = AReturn \<longrightarrow> all_values iters (a_pairs sa))) \<and>
         (pingpong_threads now iters pairs sched' = Some st \<longrightarrow>
            fifo (t_pairs st) \<and> (t_driver st = TReturn \<longrightarrow> all_values iters (t_pairs st)))"
proof (intro conjI impI)
  assume run: "pingpong_asyncio now iters pairs sched = Some sa"
  from asyncio_reach(1) [OF run] have inv: "\<forall>p\<in>set (a_pairs sa). pair_inv iters p"
    by (simp add: ainv_def)
  then show "fifo (a_pairs sa)" unfolding fifo_def using pair_inv_fifo by blast
  assume "a_driver sa = AReturn"
  with asyncio_reach(1) [OF run] have "list_all pair_done (a_pairs sa)"
    by (simp add: ainv_def a_driver_ok_def)
  from done_values [OF inv this] show "all_values iters (a_pairs sa)" .
next
  assume run: "pingpong_threads now iters pairs sched' = Some st"
  from assms have "0 \<le> pairs" by simp
  note tinv = threads_reach(1) [OF this run]
  then have inv: "\<forall>p\<in>set (t_pairs st). pair_inv iters p"
    by (simp add: tinv_def pair_ok_def)
  then show "fifo (t_pairs st)" unfolding fifo_def using pair_inv_fifo by blast
  assume "t_driver st = TReturn"
  with tinv have "list_all pair_done (t_pairs st)"
    by (simp add: tinv_def t_driver_ok_def)
  from done_values [OF inv this] show "all_values iters (t_pairs st)" .
qed

text \<open>
  Claim C3, as the code has it. Let \<open>n = 2 * pairs\<close> be the number of threads and let
  the driver's steps be counted from 0. In every state of a run of
  \<^verbatim>\<open>pingpong_threads\<close>: the start time is the clock at the tick of the driver's step
  \<open>n\<close>, the step after its \<open>n\<close> calls of \<^verbatim>\<open>th.start()\<close> and before its call of
  \<^verbatim>\<open>start.wait()\<close> (step \<open>n + 1\<close>) and its return from it (step \<open>n + 2\<close>); the
  elapsed time returned is the clock at the tick of the driver's last step,
  \<open>2 * n + 3\<close>, minus that start time; the ticks of the driver's steps increase, and
  at the tick of its step \<open>m\<close> the driver is at the statement \<open>driver_at n m\<close>. The
  start time is unset exactly as long as the driver is starting threads or about to
  read the clock; when the driver is about to read the clock every thread has been
  started, the barrier is not released and no channel operation has happened, and
  the same holds when it stands between reading the clock and calling
  \<^verbatim>\<open>start.wait()\<close>. So starting the threads lies outside the measured interval, and
  the driver's wait at the barrier lies inside it.
\<close>

theorem start_timestamp_before_barrier:
  assumes "0 \<le> pairs" and "pingpong_threads now iters pairs sched = Some s"
  shows "t_t0 s = (if 2 * nat pairs < length (driver_ticks sched)
                   then Some (now (driver_ticks sched ! (2 * nat pairs))) else None) \<and>
         t_result s = (if 4 * nat pairs + 3 < length (driver_ticks sched)
                       then Some (now (driver_ticks sched ! (4 * nat pairs + 3)) -
                                  now (driver_ticks sched ! (2 * nat pairs)))
                       else None) \<and>
         t_ticks s = length sched \<and>
         t_driver s = driver_at (2 * nat pairs) (length (driver_ticks sched)) \<and>
         sorted_wrt (<) (driver_ticks sched) \<and>
         (\<forall>m<length (driver_ticks sched). \<exists>s0.
            pingpong_threads now iters pairs (take (driver_ticks sched ! m) sched) = Some s0 \<and>
            t_ticks s0 = driver_ticks sched ! m \<and> t_driver s0 = driver_at (2 * nat pairs) m) \<and>
         (t_t0 s = None \<longleftrightarrow> (\<exists>k. t_driver s = TStart k) \<or> t_driver s = TNow0) \<and>
         (t_t0 s \<noteq> None \<longrightarrow> all_started (t_pairs s)) \<and>
         (t_driver s = TNow0 \<longrightarrow>
            all_started (t_pairs s) \<and> \<not> b_released (start s) \<and>
            (\<forall>p\<in>set (t_pairs s). no_ops p)) \<and>
         (t_driver s = TArrive \<longrightarrow>
            t_t0 s \<noteq> None \<and> \<not> b_released (start s) \<and> b_count (start s) < b_parties (start s) \<and>
            (\<forall>p\<in>set (t_pairs s). no_ops p))"
proof -
  note tinv = threads_reach(1) [OF assms]
  then have oks: "\<forall>p\<in>set (t_pairs s). pair_ok iters (b_released (start s)) p"
    and bar: "t_barrier_ok s" and drv: "t_driver_ok s" and clk: "t_clock_ok now s"
    by (simp_all add: tinv_def)
  note h = threads_history [OF assms]
  from clk have a: "t_t0 s = None \<longleftrightarrow> (\<exists>k. t_driver s = TStart k) \<or> t_driver s = TNow0"
    by (cases "t_driver s") (auto simp: t_clock_ok_def)
  from drv a have b: "t_t0 s \<noteq> None \<longrightarrow> all_started (t_pairs s)"
    by (cases "t_driver s") (auto simp: t_driver_ok_def)
  have c: "t_t0 s \<noteq> None \<and> \<not> b_released (start s) \<and> b_count (start s) < b_parties (start s) \<and>
            (\<forall>p\<in>set (t_pairs s). no_ops p)" if d: "t_driver s = TArrive"
  proof -
    from released_all_arrived [OF bar] d have nrel: "\<not> b_released (start s)" by auto
    with bar have "b_count (start s) < b_parties (start s)" by (simp add: t_barrier_ok_def)
    moreover from oks nrel ops_need_release have "\<forall>p\<in>set (t_pairs s). no_ops p" by blast
    ultimately show ?thesis using a d nrel by simp
  qed
  have c0: "all_started (t_pairs s) \<and> \<not> b_released (start s) \<and>
            (\<forall>p\<in>set (t_pairs s). no_ops p)" if d: "t_driver s = TNow0"
  proof -
    from released_all_arrived [OF bar] d have nrel: "\<not> b_released (start s)" by auto
    moreover from oks nrel ops_need_release have "\<forall>p\<in>set (t_pairs s). no_ops p" by blast
    moreover from drv d have "all_started (t_pairs s)" by (simp add: t_driver_ok_def)
    ultimately show ?thesis by simp
  qed
  have e: "\<exists>s0. pingpong_threads now iters pairs (take (driver_ticks sched ! m) sched) = Some s0 \<and>
            t_ticks s0 = driver_ticks sched ! m \<and> t_driver s0 = driver_at (2 * nat pairs) m"
    if m: "m < length (driver_ticks sched)" for m
  proof -
    let ?k = "driver_ticks sched ! m"
    from assms(2) exec_take [of "pingpong_threads_step now iters" sched _ s ?k]
    obtain s0 where s0: "pingpong_threads now iters pairs (take ?k sched) = Some s0"
      by (auto simp: pingpong_threads_def)
    from driver_ticks_less [OF m] have k: "?k < length sched" .
    from threads_history [OF assms(1) s0] driver_ticks_take [OF m] m k
    have "t_ticks s0 = ?k" "t_driver s0 = driver_at (2 * nat pairs) m" by simp_all
    with s0 show ?thesis by blast
  qed
  from h a b c c0 e driver_ticks_sorted [of sched] show ?thesis by blast
qed

text \<open>
  Claim C4. In \<^verbatim>\<open>pingpong_threads\<close> with \<open>pairs \<ge> 1\<close> the barrier has
  \<open>2 * pairs + 1\<close> parties and there are \<open>pairs\<close> pairs of workers; a worker that has
  not returned from \<^verbatim>\<open>start.wait()\<close> has performed none of its channel operations;
  and as soon as any channel operation has happened in any pair, all \<open>2 * pairs\<close>
  workers and the driver have called \<^verbatim>\<open>start.wait()\<close>, the count of the barrier
  being \<open>2 * pairs + 1\<close>.
\<close>

theorem start_barrier_gates_workers:
  assumes "1 \<le> pairs" and "pingpong_threads now iters pairs sched = Some s"
  shows "b_parties (start s) = 2 * pairs + 1 \<and>
         length (t_pairs s) = nat pairs \<and>
         (\<forall>p\<in>set (t_pairs s).
            (\<not> pi_passed (pinger p) \<longrightarrow> put_log (q1 p) = [] \<and> get_log (q2 p) = []) \<and>
            (\<not> po_passed (ponger p) \<longrightarrow> get_log (q1 p) = [] \<and> put_log (q2 p) = [])) \<and>
         ((\<exists>p\<in>set (t_pairs s). \<not> no_ops p) \<longrightarrow>
            (\<forall>p\<in>set (t_pairs s). pi_arrived (pinger p) \<and> po_arrived (ponger p)) \<and>
            driver_arrived (t_driver s) \<and> b_count (start s) = 2 * pairs + 1)"
proof -
  from assms have "0 \<le> pairs" by simp
  note tinv = threads_reach(1) [OF this assms(2)]
  then have oks: "\<forall>p\<in>set (t_pairs s). pair_ok iters (b_released (start s)) p"
    and bar: "t_barrier_ok s" and len: "length (t_pairs s) = nat pairs"
    by (simp_all add: tinv_def)
  from bar len \<open>0 \<le> pairs\<close> have p: "b_parties (start s) = 2 * pairs + 1"
    by (simp add: t_barrier_ok_def)
  have w: "\<forall>p\<in>set (t_pairs s).
            (\<not> pi_passed (pinger p) \<longrightarrow> put_log (q1 p) = [] \<and> get_log (q2 p) = []) \<and>
            (\<not> po_passed (ponger p) \<longrightarrow> get_log (q1 p) = [] \<and> put_log (q2 p) = [])"
    using oks before_barrier_no_ops by (auto simp: pair_ok_def)
  have g: "(\<forall>p\<in>set (t_pairs s). pi_arrived (pinger p) \<and> po_arrived (ponger p)) \<and>
            driver_arrived (t_driver s) \<and> b_count (start s) = 2 * pairs + 1"
    if "\<exists>p\<in>set (t_pairs s). \<not> no_ops p"
  proof -
    from that oks ops_need_release have "b_released (start s)" by blast
    from released_all_arrived [OF bar this] p show ?thesis by simp
  qed
  from p len w g show ?thesis by blast
qed


text \<open>
  Claim C10. Let \<open>iters \<le> 0\<close> (with a pair count that is not negative, as the
  runner passes it, and a monotone clock). For both functions: no channel operation
  is ever performed; the run is bounded, never deadlocked and can always be continued
  to the function's return; and the elapsed time returned is not negative.
\<close>

theorem pingpong_without_iterations:
  assumes "iters \<le> 0" and "0 \<le> pairs" and "mono now"
  shows "(pingpong_asyncio now iters pairs sched = Some sa \<longrightarrow>
            (\<forall>p\<in>set (a_pairs sa). no_ops p) \<and>
            length sched \<le> 4 \<and>
            (a_driver sa \<noteq> AReturn \<longrightarrow>
               (\<exists>a s'. pingpong_asyncio_step now iters pairs a sa = Some s')) \<and>
            (a_driver sa = AReturn \<longrightarrow> (\<exists>e. a_result sa = Some e \<and> 0 \<le> e)) \<and>
            (\<exists>more s'. pingpong_asyncio now iters pairs (sched @ more) = Some s' \<and>
               a_driver s' = AReturn)) \<and>
         (pingpong_threads now iters pairs sched' = Some st \<longrightarrow>
            (\<forall>p\<in>set (t_pairs st). no_ops p) \<and>
            length sched' \<le> 8 * nat pairs + 4 \<and>
            (t_driver st \<noteq> TReturn \<longrightarrow>
               (\<exists>a s'. pingpong_threads_step now iters a st = Some s')) \<and>
            (t_driver st = TReturn \<longrightarrow> (\<exists>e. t_result st = Some e \<and> 0 \<le> e)) \<and>
            (\<exists>more s'. pingpong_threads now iters pairs (sched' @ more) = Some s' \<and>
               t_driver s' = TReturn))"
proof (intro conjI impI)
  assume run: "pingpong_asyncio now iters pairs sched = Some sa"
  note inv = asyncio_reach(1) [OF run]
  then show "\<forall>p\<in>set (a_pairs sa). no_ops p"
    using no_iterations_no_ops assms(1) by (auto simp: ainv_def)
  from asyncio_reach(2) [OF run] assms(1) show "length sched \<le> 4" by simp
  from asyncio_finish [OF run]
  show "\<exists>more s'. pingpong_asyncio now iters pairs (sched @ more) = Some s' \<and>
               a_driver s' = AReturn" .
  {
    assume "a_driver sa \<noteq> AReturn"
    from asyncio_progress [OF inv this]
    show "\<exists>a s'. pingpong_asyncio_step now iters pairs a sa = Some s'" .
  }
  assume r: "a_driver sa = AReturn"
  with inv obtain \<tau>0 \<tau>1 where "\<tau>0 \<le> \<tau>1" "a_result sa = Some (now \<tau>1 - now \<tau>0)"
    by (auto simp: ainv_def a_clock_ok_def)
  with assms(3) show "\<exists>e. a_result sa = Some e \<and> 0 \<le> e"
    by (auto dest: monoD)
next
  assume run: "pingpong_threads now iters pairs sched' = Some st"
  note p = assms(2)
  note inv = threads_reach(1) [OF p run]
  then show "\<forall>p\<in>set (t_pairs st). no_ops p"
    using no_iterations_no_ops assms(1) by (auto simp: tinv_def pair_ok_def)
  from threads_reach(2) [OF p run] assms(1) show "length sched' \<le> 8 * nat pairs + 4" by simp
  from threads_finish [OF p run]
  show "\<exists>more s'. pingpong_threads now iters pairs (sched' @ more) = Some s' \<and>
               t_driver s' = TReturn" .
  {
    assume "t_driver st \<noteq> TReturn"
    from threads_progress [OF inv this]
    show "\<exists>a s'. pingpong_threads_step now iters a st = Some s'" .
  }
  assume r: "t_driver st = TReturn"
  with inv obtain \<tau>0 \<tau>1 where "\<tau>0 \<le> \<tau>1" "t_result st = Some (now \<tau>1 - now \<tau>0)"
    by (auto simp: tinv_def t_clock_ok_def)
  with assms(3) show "\<exists>e. t_result st = Some e \<and> 0 \<le> e"
    by (auto dest: monoD)
qed

subsection \<open>Concrete runs\<close>

lemmas run_defs =
  pingpong_asyncio_def pingpong_asyncio_step_def pingpong_asyncio_init_def asyncio_driver_def
  asyncio_worker_def one_pair_def
  pingpong_threads_def pingpong_threads_step_def pingpong_threads_init_def threads_driver_def
  threads_worker_def thread_pinger_def thread_ponger_def thread_start_def thread_finished_def
  add_pair_def start_loop_def join_loop_def arrive_def
  pinger_step_def ponger_step_def pinger_loop_def ponger_loop_def pair_done_def
  put_def get_def maxsize_def new_queue_def Let_def

lemma asyncio_example_run:
  "pingpong_asyncio real 2 1 asyncio_example =
   Some \<lparr>a_pairs =
            [\<lparr>q1 = \<lparr>q_items = [], put_log = [0, 1], get_log = [0, 1]\<rparr>,
              q2 = \<lparr>q_items = [], put_log = [0, 1], get_log = [0, 1]\<rparr>,
              pinger = PiDone, ponger = PoDone\<rparr>],
          a_driver = AReturn, a_ticks = 12, a_t0 = Some 0, a_result = Some 11\<rparr>"
  by (simp add: asyncio_example_def run_defs)

lemma threads_example_run:
  "pingpong_threads real 2 1 threads_example =
   Some \<lparr>t_pairs =
            [\<lparr>q1 = \<lparr>q_items = [], put_log = [0, 1], get_log = [0, 1]\<rparr>,
              q2 = \<lparr>q_items = [], put_log = [0, 1], get_log = [0, 1]\<rparr>,
              pinger = PiDone, ponger = PoDone\<rparr>],
          start = \<lparr>b_parties = 3, b_count = 3, b_released = True\<rparr>,
          t_driver = TReturn, t_ticks = 20, t_t0 = Some 4, t_result = Some 15\<rparr>"
  by (simp add: threads_example_def run_defs)

lemma asyncio_idle_run:
  "pingpong_asyncio real 0 1 asyncio_idle =
   Some \<lparr>a_pairs =
            [\<lparr>q1 = \<lparr>q_items = [], put_log = [], get_log = []\<rparr>,
              q2 = \<lparr>q_items = [], put_log = [], get_log = []\<rparr>,
              pinger = PiDone, ponger = PoDone\<rparr>],
          a_driver = AReturn, a_ticks = 4, a_t0 = Some 0, a_result = Some 3\<rparr>"
  by (simp add: asyncio_idle_def run_defs)

lemma threads_idle_run:
  "pingpong_threads real 0 1 threads_idle =
   Some \<lparr>t_pairs =
            [\<lparr>q1 = \<lparr>q_items = [], put_log = [], get_log = []\<rparr>,
              q2 = \<lparr>q_items = [], put_log = [], get_log = []\<rparr>,
              pinger = PiDone, ponger = PoDone\<rparr>],
          start = \<lparr>b_parties = 3, b_count = 3, b_released = True\<rparr>,
          t_driver = TReturn, t_ticks = 12, t_t0 = Some 2, t_result = Some 9\<rparr>"
  by (simp add: threads_idle_def run_defs)

lemma threads_first_put_run:
  "pingpong_threads real 1 1
     [Driver, Driver, Driver, Driver, Pinger 0, Ponger 0, Pinger 0, Pinger 0] =
   Some \<lparr>t_pairs =
            [\<lparr>q1 = \<lparr>q_items = [0], put_log = [0], get_log = []\<rparr>,
              q2 = \<lparr>q_items = [], put_log = [], get_log = []\<rparr>,
              pinger = PiGet 0, ponger = PoWaiting\<rparr>],
          start = \<lparr>b_parties = 3, b_count = 3, b_released = True\<rparr>,
          t_driver = TBlocked, t_ticks = 8, t_t0 = Some 2, t_result = None\<rparr>"
  by (simp add: run_defs)

lemma mono_real: "mono (real :: nat \<Rightarrow> real)"
  by (simp add: mono_def)

text \<open>
  Both example runs, two iterations and one pair: four operations on each queue.
\<close>

theorem pingpong_operation_counts_witness:
  "\<exists>sa st. pingpong_asyncio real 2 1 asyncio_example = Some sa \<and> a_driver sa = AReturn \<and>
     all_counts 2 1 (a_pairs sa) \<and>
     pingpong_threads real 2 1 threads_example = Some st \<and> t_driver st = TReturn \<and>
     all_counts 2 1 (t_pairs st)"
proof -
  obtain sa where sa: "pingpong_asyncio real 2 1 asyncio_example = Some sa" "a_driver sa = AReturn"
    by (simp add: asyncio_example_run)
  obtain st where st: "pingpong_threads real 2 1 threads_example = Some st" "t_driver st = TReturn"
    by (simp add: threads_example_run)
  from pingpong_operation_counts [of 2 1 real asyncio_example sa threads_example st] sa st
  show ?thesis by simp
qed

text \<open>
  Both example runs: each log is the list 0, 1.
\<close>

theorem pingpong_values_in_order_witness:
  "\<exists>sa st. pingpong_asyncio real 2 1 asyncio_example = Some sa \<and> a_driver sa = AReturn \<and>
     fifo (a_pairs sa) \<and> all_values 2 (a_pairs sa) \<and>
     pingpong_threads real 2 1 threads_example = Some st \<and> t_driver st = TReturn \<and>
     fifo (t_pairs st) \<and> all_values 2 (t_pairs st)"
proof -
  obtain sa where sa: "pingpong_asyncio real 2 1 asyncio_example = Some sa" "a_driver sa = AReturn"
    by (simp add: asyncio_example_run)
  obtain st where st: "pingpong_threads real 2 1 threads_example = Some st" "t_driver st = TReturn"
    by (simp add: threads_example_run)
  from pingpong_values_in_order [of 2 1 real asyncio_example sa threads_example st] sa st
  show ?thesis by simp
qed

text \<open>
  Claim C3 says that the driver of \<^verbatim>\<open>pingpong_threads\<close> reads the start time only
  after it has passed the start barrier. The code reads \<^verbatim>\<open>t0 = now()\<close> in the line
  before \<^verbatim>\<open>start.wait()\<close>: after the driver's first three steps for one pair the
  time is recorded, and the driver has not yet called \<^verbatim>\<open>start.wait()\<close>; the barrier
  counts no arrival and is not released.
\<close>

theorem start_timestamp_counterexample:
  "pingpong_threads real 5 1 [Driver, Driver, Driver] =
   Some \<lparr>t_pairs =
            [\<lparr>q1 = \<lparr>q_items = [], put_log = [], get_log = []\<rparr>,
              q2 = \<lparr>q_items = [], put_log = [], get_log = []\<rparr>,
              pinger = PiStarted, ponger = PoStarted\<rparr>],
          start = \<lparr>b_parties = 3, b_count = 0, b_released = False\<rparr>,
          t_driver = TArrive, t_ticks = 3, t_t0 = Some 2, t_result = None\<rparr> \<and>
   \<not> driver_arrived TArrive \<and> \<not> driver_passed TArrive"
  by (simp add: run_defs)

text \<open>
  The complete example run for one pair: the driver moves at the ticks 0, 1, 4, 5, 6,
  17, 18 and 19, the start time is the clock at tick 4 and the result the clock at
  tick 19 minus it. And the state after the driver has started both threads of one
  pair and read the clock.
\<close>

theorem start_timestamp_before_barrier_witness:
  "(\<exists>s. pingpong_threads real 2 1 threads_example = Some s \<and>
      driver_ticks threads_example = [0, 1, 4, 5, 6, 17, 18, 19] \<and>
      t_t0 s = Some (real 4) \<and> t_result s = Some (real 19 - real 4) \<and>
      t_ticks s = 20 \<and> t_driver s = TReturn \<and>
      (\<exists>s0. pingpong_threads real 2 1 (take 4 threads_example) = Some s0 \<and>
         t_ticks s0 = 4 \<and> t_driver s0 = TNow0) \<and>
      (\<exists>s0. pingpong_threads real 2 1 (take 5 threads_example) = Some s0 \<and>
         t_ticks s0 = 5 \<and> t_driver s0 = TArrive)) \<and>
   (\<exists>s. pingpong_threads real 5 1 [Driver, Driver, Driver] = Some s \<and>
      t_driver s = TArrive \<and> t_t0 s = Some (real 2) \<and> t_result s = None \<and>
      all_started (t_pairs s) \<and>
      \<not> b_released (start s) \<and> b_count (start s) < b_parties (start s) \<and>
      list_all no_ops (t_pairs s))"
proof -
  have d: "driver_ticks threads_example = [0, 1, 4, 5, 6, 17, 18, 19]"
    by (simp add: driver_ticks_def threads_example_def upt_rec)
  obtain s where s: "pingpong_threads real 2 1 threads_example = Some s"
    by (simp add: threads_example_run)
  note t = start_timestamp_before_barrier [OF _ s, unfolded d]
  from t have "t_t0 s = Some (real 4)" "t_result s = Some (real 19 - real 4)"
    "t_ticks s = 20" "t_driver s = TReturn"
    by (simp_all add: driver_at_def threads_example_def)
  moreover from t have m: "\<forall>m<length [0, 1, 4, 5, 6, 17, 18, 19 :: nat]. \<exists>s0.
            pingpong_threads real 2 1 (take ([0, 1, 4, 5, 6, 17, 18, 19] ! m) threads_example) = Some s0 \<and>
            t_ticks s0 = [0, 1, 4, 5, 6, 17, 18, 19] ! m \<and> t_driver s0 = driver_at (2 * nat 1) m"
    by simp
  from m [rule_format, of 2] m [rule_format, of 3]
  have "(\<exists>s0. pingpong_threads real 2 1 (take 4 threads_example) = Some s0 \<and>
         t_ticks s0 = 4 \<and> t_driver s0 = TNow0) \<and>
      (\<exists>s0. pingpong_threads real 2 1 (take 5 threads_example) = Some s0 \<and>
         t_ticks s0 = 5 \<and> t_driver s0 = TArrive)"
    by (simp add: driver_at_def)
  ultimately have one: "\<exists>s. pingpong_threads real 2 1 threads_example = Some s \<and>
      driver_ticks threads_example = [0, 1, 4, 5, 6, 17, 18, 19] \<and>
      t_t0 s = Some (real 4) \<and> t_result s = Some (real 19 - real 4) \<and>
      t_ticks s = 20 \<and> t_driver s = TReturn \<and>
      (\<exists>s0. pingpong_threads real 2 1 (take 4 threads_example) = Some s0 \<and>
         t_ticks s0 = 4 \<and> t_driver s0 = TNow0) \<and>
      (\<exists>s0. pingpong_threads real 2 1 (take 5 threads_example) = Some s0 \<and>
         t_ticks s0 = 5 \<and> t_driver s0 = TArrive)"
    using s d by blast
  have d3: "driver_ticks [Driver, Driver, Driver] = [0, 1, 2]"
    by (simp add: driver_ticks_def upt_rec)
  have "\<exists>s. pingpong_threads real 5 1 [Driver, Driver, Driver] = Some s"
    by (simp add: run_defs)
  then obtain s' where s': "pingpong_threads real 5 1 [Driver, Driver, Driver] = Some s'" by blast
  note t' = start_timestamp_before_barrier [OF _ s', unfolded d3]
  from t' have a: "t_driver s' = TArrive" "t_t0 s' = Some (real 2)" "t_result s' = None"
    by (simp_all add: driver_at_def)
  with t' have "all_started (t_pairs s')" "\<not> b_released (start s')"
    "b_count (start s') < b_parties (start s')" "list_all no_ops (t_pairs s')"
    by (simp_all add: list_all_iff)
  with a s' have two: "\<exists>s. pingpong_threads real 5 1 [Driver, Driver, Driver] = Some s \<and>
      t_driver s = TArrive \<and> t_t0 s = Some (real 2) \<and> t_result s = None \<and>
      all_started (t_pairs s) \<and>
      \<not> b_released (start s) \<and> b_count (start s) < b_parties (start s) \<and>
      list_all no_ops (t_pairs s)" by blast
  from one two show ?thesis by blast
qed

text \<open>
  A state in which the pinger has put its first value: the barrier counts three arrivals.
\<close>

theorem start_barrier_gates_workers_witness:
  "\<exists>s. pingpong_threads real 1 1
          [Driver, Driver, Driver, Driver, Pinger 0, Ponger 0, Pinger 0, Pinger 0] = Some s \<and>
     b_parties (start s) = 3 \<and> length (t_pairs s) = 1 \<and>
     list_ex (\<lambda>p. \<not> no_ops p) (t_pairs s) \<and>
     list_all (\<lambda>p. pi_arrived (pinger p) \<and> po_arrived (ponger p)) (t_pairs s) \<and>
     driver_arrived (t_driver s) \<and> b_count (start s) = 3"
proof -
  note run = threads_first_put_run
  from start_barrier_gates_workers [OF _ run] run show ?thesis
    by (simp add: no_ops_def)
qed


text \<open>
  Both runs for \<open>iters = 0\<close> and one pair, with the step count as the clock.
\<close>

theorem pingpong_without_iterations_witness:
  "\<exists>sa st. pingpong_asyncio real 0 1 asyncio_idle = Some sa \<and> a_driver sa = AReturn \<and>
     list_all no_ops (a_pairs sa) \<and> length asyncio_idle \<le> 4 \<and>
     (\<exists>e. a_result sa = Some e \<and> 0 \<le> e) \<and>
     pingpong_threads real 0 1 threads_idle = Some st \<and> t_driver st = TReturn \<and>
     list_all no_ops (t_pairs st) \<and> length threads_idle \<le> 8 * nat 1 + 4 \<and>
     (\<exists>e. t_result st = Some e \<and> 0 \<le> e)"
proof -
  obtain sa where sa: "pingpong_asyncio real 0 1 asyncio_idle = Some sa" "a_driver sa = AReturn"
    by (simp add: asyncio_idle_run)
  obtain st where st: "pingpong_threads real 0 1 threads_idle = Some st" "t_driver st = TReturn"
    by (simp add: threads_idle_run)
  from pingpong_without_iterations [of 0 1 real asyncio_idle sa threads_idle st, OF _ _ mono_real]
    sa st
  show ?thesis by (simp add: list_all_iff)
qed

end
